theory Spec2Isabelle
  imports Main "HOL-Library.Word"
begin

unbundle bit_operations_syntax

section \<open>The ATmega32A as the firmware sees it\<close>

text \<open>
  The firmware of the W29C020C flash programmer drives the chip through the I/O
  registers of four 8-bit ports and talks to the host over the serial line. The
  registers are a record; every statement of the source that touches the hardware
  becomes a function on the board state that also appends what it did to the
  board's history, oldest entry first.
\<close>

type_synonym byte = "8 word"
type_synonym uint16 = "16 word"

definition PAGE_SIZE :: nat where
  "PAGE_SIZE = 128"

text \<open>Bits in port D.\<close>

definition FLASH_CE :: byte where
  "FLASH_CE = 4"

definition FLASH_OE :: byte where
  "FLASH_OE = 8"

definition FLASH_WE :: byte where
  "FLASH_WE = 16"

definition BUFFER_OE :: byte where
  "BUFFER_OE = 32"

record ports =
  DDRA :: byte
  DDRB :: byte
  DDRC :: byte
  DDRD :: byte
  PORTA :: byte
  PORTB :: byte
  PORTC :: byte
  PORTD :: byte

text \<open>
  One entry of the history: the registers right after a store to one of them, a
  busy-wait (\<open>delayMicroseconds\<close> in microseconds, \<open>delay\<close> in milliseconds), the
  byte sampled from \<open>PINC\<close>, or a call of the serial library.
\<close>

datatype event =
    Pins ports
  | DelayMicroseconds nat
  | Delay nat
  | Sample byte
  | SerialBegin nat
  | SerialPrint string
  | SerialPrintln string

text \<open>
  \<open>rx\<close> holds the bytes the serial line will still deliver. \<open>world\<close> is whatever is
  wired to the pins of port C: the level it puts on them, given everything the
  board has done so far.
\<close>

record board =
  pins :: ports
  rx :: "byte list"
  world :: "event list \<Rightarrow> byte"
  events :: "event list"

definition store :: "(ports \<Rightarrow> ports) \<Rightarrow> board \<Rightarrow> board" where
  "store f s = (let p = f (pins s) in s\<lparr>pins := p, events := events s @ [Pins p]\<rparr>)"

text \<open>A block of statements, run in order.\<close>

definition steps :: "('s \<Rightarrow> 's) list \<Rightarrow> 's \<Rightarrow> 's" where
  "steps fs = fold (\<lambda>f. f) fs"

text \<open>\<open>R = v\<close>, \<open>R |= m\<close> and \<open>R &= ~m\<close> on the register updated by \<open>upd\<close>.\<close>

definition assign :: "((byte \<Rightarrow> byte) \<Rightarrow> ports \<Rightarrow> ports) \<Rightarrow> byte \<Rightarrow> board \<Rightarrow> board" where
  "assign upd v = store (upd (\<lambda>_. v))"

definition set_bits :: "((byte \<Rightarrow> byte) \<Rightarrow> ports \<Rightarrow> ports) \<Rightarrow> byte \<Rightarrow> board \<Rightarrow> board" where
  "set_bits upd m = store (upd (\<lambda>v. v OR m))"

definition clear_bits :: "((byte \<Rightarrow> byte) \<Rightarrow> ports \<Rightarrow> ports) \<Rightarrow> byte \<Rightarrow> board \<Rightarrow> board" where
  "clear_bits upd m = store (upd (\<lambda>v. v AND NOT m))"

definition delayMicroseconds :: "nat \<Rightarrow> board \<Rightarrow> board" where
  "delayMicroseconds n s = s\<lparr>events := events s @ [DelayMicroseconds n]\<rparr>"

definition delay :: "nat \<Rightarrow> board \<Rightarrow> board" where
  "delay n s = s\<lparr>events := events s @ [Delay n]\<rparr>"

text \<open>
  Reading \<open>PINC\<close>: a pin configured as output reads back what the port drives, a pin
  configured as input reads what the outside world puts on it.
\<close>

definition read_PINC :: "board \<Rightarrow> byte \<times> board" where
  "read_PINC s =
     (let p = pins s;
          v = (PORTC p AND DDRC p) OR (world s (events s) AND NOT (DDRC p))
      in (v, s\<lparr>events := events s @ [Sample v]\<rparr>))"

definition serialBegin :: "nat \<Rightarrow> board \<Rightarrow> board" where
  "serialBegin baud s = s\<lparr>events := events s @ [SerialBegin baud]\<rparr>"

definition serialPrint :: "string \<Rightarrow> board \<Rightarrow> board" where
  "serialPrint str s = s\<lparr>events := events s @ [SerialPrint str]\<rparr>"

definition serialPrintln :: "string \<Rightarrow> board \<Rightarrow> board" where
  "serialPrintln str s = s\<lparr>events := events s @ [SerialPrintln str]\<rparr>"

text \<open>A character constant of the source as the byte it stands for.\<close>

definition chr :: "char \<Rightarrow> byte" where
  "chr c = of_char c"

text \<open>\<open>Serial.println\<close> of a byte prints it in decimal.\<close>

fun decimal :: "nat \<Rightarrow> string" where
  "decimal n =
     (if n < 10 then [char_of (48 + n)]
      else decimal (n div 10) @ [char_of (48 + n mod 10)])"

declare decimal.simps [simp del]

section \<open>Byte cycles\<close>

definition writeByte :: "uint16 \<Rightarrow> byte \<Rightarrow> board \<Rightarrow> board" where
  "writeByte address data =
     steps
       [set_bits PORTD_update (FLASH_CE OR FLASH_OE OR FLASH_WE),
        assign PORTA_update (ucast address),
        assign PORTB_update (ucast (drop_bit 8 address)),
        assign PORTC_update data,
        clear_bits PORTD_update (FLASH_WE OR FLASH_CE),
        delayMicroseconds 1,
        set_bits PORTD_update (FLASH_CE OR FLASH_OE OR FLASH_WE),
        delayMicroseconds 1]"

definition readByte :: "uint16 \<Rightarrow> board \<Rightarrow> byte \<times> board" where
  "readByte address s =
     (let (data, s') =
            read_PINC
              ((steps
                 [assign DDRA_update 0xff,
                  assign DDRB_update 0xff,
                  set_bits PORTD_update (FLASH_CE OR FLASH_OE OR FLASH_WE),
                  assign PORTA_update (ucast address),
                  assign PORTB_update (ucast (drop_bit 8 address)),
                  delayMicroseconds 10,
                  clear_bits PORTD_update (FLASH_CE OR FLASH_OE),
                  delayMicroseconds 10]) s)
      in (data,
          (steps
            [set_bits PORTD_update (FLASH_CE OR FLASH_OE),
             assign DDRA_update 0,
             assign DDRB_update 0,
             assign PORTA_update 0,
             assign PORTB_update 0]) s'))"

section \<open>Page write and chip erase\<close>

text \<open>
  \<open>src\<close> points to the caller's array; the loop index is a byte counting from 0 to
  127, and \<open>address + i\<close> is 16-bit unsigned arithmetic.
\<close>

definition writePage :: "uint16 \<Rightarrow> byte list \<Rightarrow> board \<Rightarrow> board" where
  "writePage address src =
     steps
       [assign DDRA_update 0xff,
        assign DDRB_update 0xff,
        assign DDRC_update 0xff,
        writeByte 0x5555 0xAA,
        writeByte 0x2AAA 0x55,
        writeByte 0x5555 0xA0,
        fold (\<lambda>i. writeByte (address + of_nat i) (src ! i)) [0..<PAGE_SIZE],
        delay 10,
        assign DDRA_update 0,
        assign DDRB_update 0,
        assign DDRC_update 0,
        assign PORTA_update 0,
        assign PORTB_update 0,
        assign PORTC_update 0]"

definition chipErase :: "board \<Rightarrow> board" where
  "chipErase =
     steps
       [serialPrintln ''Erasing chip...'',
        assign DDRA_update 0xff,
        assign DDRB_update 0xff,
        assign DDRC_update 0xff,
        writeByte 0x5555 0xAA,
        writeByte 0x2AAA 0x55,
        writeByte 0x5555 0x80,
        writeByte 0x5555 0xAA,
        writeByte 0x2AAA 0x55,
        writeByte 0x5555 0x10,
        delay 50,
        assign DDRA_update 0,
        assign DDRB_update 0,
        assign DDRC_update 0,
        assign PORTA_update 0,
        assign PORTB_update 0,
        assign PORTC_update 0]"

section \<open>Ownership of the flash chip\<close>

definition captureOwnership :: "board \<Rightarrow> board" where
  "captureOwnership =
     steps
       [set_bits PORTD_update BUFFER_OE,
        set_bits DDRD_update FLASH_CE,
        set_bits PORTD_update (FLASH_CE OR FLASH_WE OR FLASH_OE),
        assign DDRA_update 0,
        assign DDRB_update 0,
        assign DDRC_update 0,
        assign PORTA_update 0,
        assign PORTB_update 0,
        assign PORTC_update 0]"

definition releaseOwnership :: "board \<Rightarrow> board" where
  "releaseOwnership =
     steps
       [set_bits PORTD_update FLASH_WE,
        clear_bits PORTD_update FLASH_OE,
        clear_bits DDRD_update FLASH_CE,
        clear_bits PORTD_update FLASH_CE,
        assign DDRA_update 0,
        assign DDRB_update 0,
        assign DDRC_update 0,
        assign PORTA_update 0,
        assign PORTB_update 0,
        assign PORTC_update 0,
        clear_bits PORTD_update BUFFER_OE]"

section \<open>The serial commands\<close>

text \<open>
  \<open>readSerial\<close> spins until a byte is available. When the line delivers nothing
  more it never returns: that is \<open>None\<close>, here and in every caller.
\<close>

definition readSerial :: "board \<Rightarrow> (byte \<times> board) option" where
  "readSerial s = (case rx s of [] \<Rightarrow> None | c # cs \<Rightarrow> Some (c, s\<lparr>rx := cs\<rparr>))"

definition ascToNibble :: "byte \<Rightarrow> byte" where
  "ascToNibble v =
     (if v \<ge> chr CHR ''0'' \<and> v \<le> chr CHR ''9'' then v - chr CHR ''0''
      else if v \<ge> chr CHR ''a'' \<and> v \<le> chr CHR ''f'' then v - chr CHR ''a'' + 10
      else if v \<ge> chr CHR ''A'' \<and> v \<le> chr CHR ''F'' then v - chr CHR ''A'' + 10
      else 0)"

text \<open>
  The \<open>while\<close> loop of \<open>writePageHex\<close> that fills the page buffer from the serial
  line, entered with index \<open>i\<close>; it returns the buffer as the loop leaves it.
\<close>

function writePageHex_read :: "nat \<Rightarrow> byte list \<Rightarrow> board \<Rightarrow> (byte list \<times> board) option" where
  "writePageHex_read i buffer s =
     (if i < PAGE_SIZE then
        (case readSerial s of
           None \<Rightarrow> None
         | Some (h, s1) \<Rightarrow>
             if h = chr CHR ''*'' then Some (buffer, s1)
             else
               (case readSerial s1 of
                  None \<Rightarrow> None
                | Some (l, s2) \<Rightarrow>
                    if l = chr CHR ''*'' then Some (buffer, s2)
                    else
                      writePageHex_read (Suc i)
                        (buffer[i := push_bit 4 (ascToNibble h) OR ascToNibble l]) s2))
      else Some (buffer, s))"
  by pat_completeness auto
termination
  by (relation "measure (\<lambda>(i, buffer, s). PAGE_SIZE - i)") auto

declare writePageHex_read.simps [simp del]

text \<open>
  \<open>page * PAGE_SIZE\<close> is computed in \<open>int\<close>, where \<open>255 * 128\<close> still fits, and
  then passed as a 16-bit address.
\<close>

definition writePageHex :: "byte \<Rightarrow> board \<Rightarrow> board option" where
  "writePageHex page s =
     (case writePageHex_read 0 (replicate PAGE_SIZE 0) (captureOwnership s) of
        None \<Rightarrow> None
      | Some (buffer, s') \<Rightarrow>
          Some ((steps
                  [serialPrint ''Writing page '',
                   serialPrintln (decimal (unat page)),
                   writePage (of_nat (unat page * PAGE_SIZE)) buffer,
                   releaseOwnership]) s'))"

definition hex :: string where
  "hex = ''0123456789ABCDEF''"

text \<open>One round of the \<open>for\<close> loop of \<open>dumpPage\<close>, on the row length and the board.\<close>

definition dumpPage_body :: "byte \<Rightarrow> nat \<Rightarrow> nat \<times> board \<Rightarrow> nat \<times> board" where
  "dumpPage_body page i = (\<lambda>(rowLength, s).
     (let (data, s1) = readByte (of_nat (unat page * PAGE_SIZE + i)) s;
          s2 = serialPrint [hex ! unat (drop_bit 4 data), hex ! unat (data AND 0xf), CHR '' ''] s1
      in if Suc rowLength = 16 then (0, serialPrintln '' '' s2) else (Suc rowLength, s2)))"

definition dumpPage :: "byte \<Rightarrow> board \<Rightarrow> board" where
  "dumpPage page =
     steps
       [captureOwnership,
        serialPrint ''Reading page '',
        serialPrintln (decimal (unat page)),
        (\<lambda>s. snd (fold (dumpPage_body page) [0..<PAGE_SIZE] (0, s))),
        serialPrintln '' '',
        releaseOwnership]"

text \<open>The sketch's \<open>setup\<close> function, which runs once after reset.\<close>

definition setup_fn :: "board \<Rightarrow> board" where
  "setup_fn =
     steps
       [assign DDRA_update 0,
        assign DDRB_update 0,
        assign DDRC_update 0,
        assign DDRD_update (FLASH_CE OR FLASH_OE OR FLASH_WE OR BUFFER_OE),
        set_bits PORTD_update (FLASH_CE OR FLASH_OE OR FLASH_WE OR BUFFER_OE),
        serialBegin 9600]"

definition loop :: "board \<Rightarrow> board option" where
  "loop s =
     (case readSerial s of
        None \<Rightarrow> None
      | Some (cmd, s1) \<Rightarrow>
          (let s2 = serialPrintln (''Ready'' @ [CHR 0x0A]) s1 in
           if cmd = chr CHR ''w'' then
             (case readSerial s2 of
                None \<Rightarrow> None
              | Some (c, s3) \<Rightarrow> writePageHex (c - chr CHR ''0'') s3)
           else if cmd = chr CHR ''d'' then
             (case readSerial s2 of
                None \<Rightarrow> None
              | Some (c, s3) \<Rightarrow> Some (dumpPage (c - chr CHR ''0'') s3))
           else if cmd = chr CHR ''e'' then Some (chipErase s2)
           else if cmd = chr CHR ''?'' then
             Some ((steps
                     [serialPrintln ''wX... write hex data to page X, terminated with *'',
                      serialPrintln ''dX    dump page X'',
                      serialPrintln ''e     erase chip'']) s2)
           else Some (serialPrintln ''Unknown command. Type ? for help'' s2)))"

section \<open>Reading the serial input as hex pairs\<close>

text \<open>
  The input up to the sentinel, cut into pairs of characters; a last character
  without a partner is left out. Then the byte each pair stands for, and the
  characters of a list of pairs.
\<close>

fun pairs_of :: "'a list \<Rightarrow> ('a \<times> 'a) list" where
  "pairs_of (h # l # cs) = (h, l) # pairs_of cs"
| "pairs_of _ = []"

definition decode_pairs :: "(byte \<times> byte) list \<Rightarrow> byte list" where
  "decode_pairs ps = map (\<lambda>(h, l). push_bit 4 (ascToNibble h) OR ascToNibble l) ps"

text \<open>
  The value of a pair of characters as the spec words it, written without the
  code's decoder: a hex digit, in either case, has the value of its place in
  \<open>0123456789ABCDEF\<close>; any other character counts as zero; the pair \<open>h l\<close>
  stands for the byte \<open>16 * h + l\<close>.
\<close>

fun place_of :: "'a \<Rightarrow> 'a list \<Rightarrow> nat option" where
  "place_of c [] = None"
| "place_of c (x # xs) = (if x = c then Some 0 else map_option Suc (place_of c xs))"

definition spec_hex_digit :: "byte \<Rightarrow> nat" where
  "spec_hex_digit c =
     (case place_of c (map chr ''0123456789ABCDEF'') of
        Some n \<Rightarrow> n
      | None \<Rightarrow>
          (case place_of c (map chr ''0123456789abcdef'') of Some n \<Rightarrow> n | None \<Rightarrow> 0))"

definition spec_hex_byte :: "byte \<times> byte \<Rightarrow> byte" where
  "spec_hex_byte p = of_nat (16 * spec_hex_digit (fst p) + spec_hex_digit (snd p))"

definition pair_chars :: "('a \<times> 'a) list \<Rightarrow> 'a list" where
  "pair_chars ps = concat (map (\<lambda>(h, l). [h, l]) ps)"

definition before_sentinel :: "byte list \<Rightarrow> byte list" where
  "before_sentinel cs = takeWhile (\<lambda>c. c \<noteq> chr CHR ''*'') cs"

definition after_sentinel :: "byte list \<Rightarrow> byte list" where
  "after_sentinel cs = tl (dropWhile (\<lambda>c. c \<noteq> chr CHR ''*'') cs)"

text \<open>The registers and the board at reset, with the serial input still to come.\<close>

definition reset_ports :: ports where
  "reset_ports =
     \<lparr>DDRA = 0, DDRB = 0, DDRC = 0, DDRD = 0, PORTA = 0, PORTB = 0, PORTC = 0, PORTD = 0\<rparr>"

definition power_on :: "byte list \<Rightarrow> board" where
  "power_on input = \<lparr>pins = reset_ports, rx = input, world = (\<lambda>_. 0xff), events = []\<rparr>"

text \<open>
  The board after start-up, when the first command is read; the board after
  \<open>captureOwnership\<close>; and the same with the address and data buses switched to
  output as \<open>writePage\<close> and \<open>chipErase\<close> do first.
\<close>

definition started :: "byte list \<Rightarrow> board" where
  "started input = setup_fn (power_on input)"

definition captured_board :: board where
  "captured_board = captureOwnership (started [])"

definition sequencer_board :: board where
  "sequencer_board =
     steps [assign DDRA_update 0xff, assign DDRB_update 0xff, assign DDRC_update 0xff]
       captured_board"

section \<open>What the flash chip sees\<close>

text \<open>
  The properties below are stated on what reaches the chip's pins. A control line
  of port D is driven only while its pin is an output; the address and the data
  bus carry a value only while all their pins are outputs.
\<close>

definition driven_low :: "byte \<Rightarrow> ports \<Rightarrow> bool" where
  "driven_low m p \<longleftrightarrow> DDRD p AND m = m \<and> PORTD p AND m = 0"

definition driven_high :: "byte \<Rightarrow> ports \<Rightarrow> bool" where
  "driven_high m p \<longleftrightarrow> DDRD p AND m = m \<and> PORTD p AND m = m"

definition addr_bus :: "ports \<Rightarrow> uint16 option" where
  "addr_bus p =
     (if DDRA p = 0xff \<and> DDRB p = 0xff then Some (word_cat (PORTB p) (PORTA p)) else None)"

definition data_bus :: "ports \<Rightarrow> byte option" where
  "data_bus p = (if DDRC p = 0xff then Some (PORTC p) else None)"

text \<open>Chip enable, output enable and write enable are all outputs.\<close>

definition control_outputs :: "ports \<Rightarrow> bool" where
  "control_outputs p \<longleftrightarrow>
     DDRD p AND FLASH_CE = FLASH_CE \<and> DDRD p AND FLASH_OE = FLASH_OE \<and>
     DDRD p AND FLASH_WE = FLASH_WE"

text \<open>They are all outputs, and all high.\<close>

definition lines_idle :: "ports \<Rightarrow> bool" where
  "lines_idle p \<longleftrightarrow>
     driven_high FLASH_CE p \<and> driven_high FLASH_OE p \<and> driven_high FLASH_WE p"

definition buses_output :: "ports \<Rightarrow> bool" where
  "buses_output p \<longleftrightarrow> DDRA p = 0xff \<and> DDRB p = 0xff \<and> DDRC p = 0xff"

text \<open>Output enable and write enable asserted towards the flash at the same time.\<close>

definition oe_we_conflict :: "ports \<Rightarrow> bool" where
  "oe_we_conflict p \<longleftrightarrow> driven_low FLASH_OE p \<and> driven_low FLASH_WE p"

fun event_safe :: "event \<Rightarrow> bool" where
  "event_safe (Pins p) = (\<not> oe_we_conflict p)"
| "event_safe _ = True"

text \<open>
  The two are not both asserted now, and were not after any store since entry
  \<open>n\<close> of the history.
\<close>

definition safe_since :: "nat \<Rightarrow> board \<Rightarrow> bool" where
  "safe_since n s \<longleftrightarrow>
     n \<le> length (events s) \<and> \<not> oe_we_conflict (pins s) \<and>
     list_all event_safe (drop n (events s))"

text \<open>
  The two ownership modes. The controller owns the bus when the external buffer is
  disabled and chip enable is the controller's output. The external master owns it
  when the buffer is enabled, chip enable is an input without pull-up and the
  address and data pins are inputs.
\<close>

definition controller_owns_bus :: "ports \<Rightarrow> bool" where
  "controller_owns_bus p \<longleftrightarrow> driven_high BUFFER_OE p \<and> DDRD p AND FLASH_CE = FLASH_CE"

definition external_master_owns_bus :: "ports \<Rightarrow> bool" where
  "external_master_owns_bus p \<longleftrightarrow>
     driven_low BUFFER_OE p \<and> DDRD p AND FLASH_CE = 0 \<and> PORTD p AND FLASH_CE = 0 \<and>
     DDRA p = 0 \<and> DDRB p = 0 \<and> DDRC p = 0"

text \<open>
  A recorder on the chip's pins. The chip is strobed for writing while chip enable
  and write enable are low and output enable is high, and for reading while chip
  enable and output enable are low and write enable is high. A write cycle takes
  its address when the strobe begins (the falling edge of CE or WE, whichever
  comes last) and its data when the strobe ends; both cycles carry the time the
  strobe was held, in microseconds. Time that passes with no strobe is a gap.
\<close>

datatype strobe = NoStrobe | WriteStrobe | ReadStrobe

definition strobe_of :: "ports \<Rightarrow> strobe" where
  "strobe_of p =
     (if driven_low FLASH_CE p \<and> driven_low FLASH_WE p \<and> driven_high FLASH_OE p
      then WriteStrobe
      else if driven_low FLASH_CE p \<and> driven_low FLASH_OE p \<and> driven_high FLASH_WE p
      then ReadStrobe
      else NoStrobe)"

datatype cycle =
    BusWrite "uint16 option" "byte option" nat
  | BusRead "uint16 option" nat
  | Gap nat

datatype phase =
    Standby
  | Writing "uint16 option" "byte option" nat
  | Reading "uint16 option" nat

record recorder =
  phase :: phase
  cycles :: "cycle list"

definition enter :: "ports \<Rightarrow> phase" where
  "enter p =
     (case strobe_of p of
        NoStrobe \<Rightarrow> Standby
      | WriteStrobe \<Rightarrow> Writing (addr_bus p) (data_bus p) 0
      | ReadStrobe \<Rightarrow> Reading (addr_bus p) 0)"

definition pins_change :: "ports \<Rightarrow> recorder \<Rightarrow> recorder" where
  "pins_change p r =
     (case phase r of
        Standby \<Rightarrow> r\<lparr>phase := enter p\<rparr>
      | Writing a d t \<Rightarrow>
          if strobe_of p = WriteStrobe then r\<lparr>phase := Writing a (data_bus p) t\<rparr>
          else \<lparr>phase = enter p, cycles = cycles r @ [BusWrite a d t]\<rparr>
      | Reading a t \<Rightarrow>
          if strobe_of p = ReadStrobe \<and> addr_bus p = a then r
          else \<lparr>phase = enter p, cycles = cycles r @ [BusRead a t]\<rparr>)"

definition elapse :: "nat \<Rightarrow> recorder \<Rightarrow> recorder" where
  "elapse n r =
     (case phase r of
        Standby \<Rightarrow> r\<lparr>cycles := cycles r @ [Gap n]\<rparr>
      | Writing a d t \<Rightarrow> r\<lparr>phase := Writing a d (t + n)\<rparr>
      | Reading a t \<Rightarrow> r\<lparr>phase := Reading a (t + n)\<rparr>)"

fun observe :: "recorder \<Rightarrow> event \<Rightarrow> recorder" where
  "observe r (Pins p) = pins_change p r"
| "observe r (DelayMicroseconds n) = elapse n r"
| "observe r (Delay n) = elapse (1000 * n) r"
| "observe r _ = r"

definition bus_view :: "event list \<Rightarrow> recorder" where
  "bus_view evs = foldl observe \<lparr>phase = Standby, cycles = []\<rparr> evs"

abbreviation view :: "board \<Rightarrow> recorder" where
  "view s \<equiv> bus_view (events s)"

text \<open>
  Between two commands the controller holds write enable high and does not select
  the chip: chip enable is either its output and high, or an input.
\<close>

definition between_commands :: "ports \<Rightarrow> bool" where
  "between_commands p \<longleftrightarrow>
     DDRD p AND FLASH_OE = FLASH_OE \<and> driven_high FLASH_WE p \<and> \<not> driven_low FLASH_CE p"

text \<open>
  \<open>captureOwnership\<close> makes chip enable an output before it sets the port bit.
  When the bit is still clear and output enable still low, as \<open>releaseOwnership\<close>
  leaves them, the chip is strobed for reading until the next store; the recorder
  shows a read cycle of no duration.
\<close>

definition capture_glitch :: "ports \<Rightarrow> cycle list" where
  "capture_glitch p =
     (if PORTD p AND FLASH_CE = 0 \<and> PORTD p AND FLASH_OE = 0 then [BusRead (addr_bus p) 0]
      else [])"

text \<open>
  What the recorder shows for a list of byte writes done with \<open>writeByte\<close>: for
  each a write cycle held for a microsecond, then a microsecond with no strobe.
\<close>

definition write_cycles :: "(uint16 \<times> byte) list \<Rightarrow> cycle list" where
  "write_cycles ws = concat (map (\<lambda>(a, d). [BusWrite (Some a) (Some d) 1, Gap 1]) ws)"

text \<open>And for a list of reads done with \<open>readByte\<close>.\<close>

definition read_cycles :: "uint16 list \<Rightarrow> cycle list" where
  "read_cycles as = concat (map (\<lambda>a. [Gap 10, BusRead (Some a) 10]) as)"

text \<open>The 128 addresses of the page that starts at \<open>base\<close>, in 16-bit arithmetic.\<close>

definition page_addresses :: "uint16 \<Rightarrow> uint16 list" where
  "page_addresses base = map (\<lambda>i. base + of_nat i) [0..<PAGE_SIZE]"

text \<open>The write cycles and the read cycles among the recorded ones.\<close>

fun writes_of :: "cycle list \<Rightarrow> (uint16 option \<times> byte option) list" where
  "writes_of [] = []"
| "writes_of (BusWrite a d t # cs) = (a, d) # writes_of cs"
| "writes_of (_ # cs) = writes_of cs"

fun reads_of :: "cycle list \<Rightarrow> uint16 option list" where
  "reads_of [] = []"
| "reads_of (BusRead a t # cs) = a # reads_of cs"
| "reads_of (_ # cs) = reads_of cs"

section \<open>A model of the flash chip\<close>

text \<open>
  Modelled from the spec: the flash chip, which is hardware and has no code in the
  source. The chip is ready, or has seen one or two of the unlock writes, or is
  loading a page: then it holds the bytes loaded so far, each with its address,
  and the microseconds since the last load.
\<close>

datatype flash_mode = Ready | Unlocked1 | Unlocked2 | Loading "(uint16 \<times> byte) list" nat

record flash =
  cells :: "uint16 \<Rightarrow> byte"
  mode :: flash_mode

definition program :: "(uint16 \<times> byte) list \<Rightarrow> (uint16 \<Rightarrow> byte) \<Rightarrow> uint16 \<Rightarrow> byte" where
  "program ws m = fold (\<lambda>(a, d) m. m(a := d)) ws m"

text \<open>
  Modelled from the spec: what the chip does on a cycle, following the protocol
  as the spec and the header comment of the source document it. A write cycle
  with a held strobe is a command or a byte load: \<open>0xAA\<close> to \<open>0x5555\<close>, \<open>0x55\<close> to
  \<open>0x2AAA\<close> and \<open>0xA0\<close> to \<open>0x5555\<close> unlock the chip for a page load; every write
  cycle that follows within 200 microseconds of the one before loads its byte for
  its address; 10 ms after the last load the loaded bytes are in the cells and
  the chip is ready again. Other commands, the erase among them, are not
  modelled. Each loaded byte goes to the cell of its own address: the model does
  not tell pages apart.
\<close>

fun flash_cycle :: "flash \<Rightarrow> cycle \<Rightarrow> flash" where
  "flash_cycle f (BusWrite (Some a) (Some d) t) =
     (if t = 0 then f
      else
        (case mode f of
           Ready \<Rightarrow> if a = 0x5555 \<and> d = 0xAA then f\<lparr>mode := Unlocked1\<rparr> else f
         | Unlocked1 \<Rightarrow>
             if a = 0x2AAA \<and> d = 0x55 then f\<lparr>mode := Unlocked2\<rparr> else f\<lparr>mode := Ready\<rparr>
         | Unlocked2 \<Rightarrow>
             if a = 0x5555 \<and> d = 0xA0 then f\<lparr>mode := Loading [] 0\<rparr>
             else f\<lparr>mode := Ready\<rparr>
         | Loading ws idle \<Rightarrow>
             if idle \<le> 200 then f\<lparr>mode := Loading (ws @ [(a, d)]) 0\<rparr> else f))"
| "flash_cycle f (BusWrite _ _ t) = f"
| "flash_cycle f (BusRead a t) = f"
| "flash_cycle f (Gap n) =
     (case mode f of
        Loading ws idle \<Rightarrow>
          if 10000 \<le> idle + n then \<lparr>cells = program ws (cells f), mode = Ready\<rparr>
          else f\<lparr>mode := Loading ws (idle + n)\<rparr>
      | _ \<Rightarrow> f)"

text \<open>The chip after it has seen what the recorder shows for a history.\<close>

definition flash_after :: "flash \<Rightarrow> event list \<Rightarrow> flash" where
  "flash_after f0 evs = foldl flash_cycle f0 (cycles (bus_view evs))"

text \<open>
  The chip on port C: while it is ready and has been strobed for reading at an
  address driven by the controller, for some time, it puts the cell on the data
  bus; otherwise the bus floats at some level \<open>float\<close>.
\<close>

definition flash_world :: "flash \<Rightarrow> byte \<Rightarrow> event list \<Rightarrow> byte" where
  "flash_world f0 float evs =
     (case phase (bus_view evs) of
        Reading (Some a) t \<Rightarrow>
          if 0 < t \<and> mode (flash_after f0 evs) = Ready then cells (flash_after f0 evs) a
          else float
      | _ \<Rightarrow> float)"

definition blank_flash :: flash where
  "blank_flash = \<lparr>cells = (\<lambda>_. 0xff), mode = Ready\<rparr>"

text \<open>Reading a list of addresses with \<open>readByte\<close>, one after the other.\<close>

fun readBytes :: "uint16 list \<Rightarrow> board \<Rightarrow> byte list \<times> board" where
  "readBytes [] s = ([], s)"
| "readBytes (a # as) s =
     (let (d, s') = readByte a s; (ds, s'') = readBytes as s' in (d # ds, s''))"

section \<open>Registers, statements and pins\<close>

lemma and_mask_bit:
  fixes w :: byte
  assumes n: "n < 8"
  shows "(w AND 2 ^ n = 2 ^ n) = bit w n"
proof
  assume "w AND 2 ^ n = 2 ^ n"
  then have "bit (w AND 2 ^ n) n = bit (2 ^ n :: byte) n" by simp
  with n show "bit w n" by (simp add: bit_simps)
next
  assume "bit w n"
  then show "w AND 2 ^ n = 2 ^ n"
    by (intro bit_word_eqI) (auto simp: bit_simps)
qed

lemma and4: "((w :: byte) AND 4 = 4) = bit w 2" "((w :: byte) AND 4 = 0) = (\<not> bit w 2)"
  using and_exp_eq_0_iff_not_bit[of w 2] and_mask_bit[of 2 w] by simp_all

lemma and8: "((w :: byte) AND 8 = 8) = bit w 3" "((w :: byte) AND 8 = 0) = (\<not> bit w 3)"
  using and_exp_eq_0_iff_not_bit[of w 3] and_mask_bit[of 3 w] by simp_all

lemma and16: "((w :: byte) AND 16 = 16) = bit w 4" "((w :: byte) AND 16 = 0) = (\<not> bit w 4)"
  using and_exp_eq_0_iff_not_bit[of w 4] and_mask_bit[of 4 w] by simp_all

lemma and32: "((w :: byte) AND 32 = 32) = bit w 5" "((w :: byte) AND 32 = 0) = (\<not> bit w 5)"
  using and_exp_eq_0_iff_not_bit[of w 5] and_mask_bit[of 5 w] by simp_all

lemmas mask_defs = FLASH_CE_def FLASH_OE_def FLASH_WE_def BUFFER_OE_def

lemma driven_bits:
  "driven_low FLASH_CE p = (bit (DDRD p) 2 \<and> \<not> bit (PORTD p) 2)"
  "driven_low FLASH_OE p = (bit (DDRD p) 3 \<and> \<not> bit (PORTD p) 3)"
  "driven_low FLASH_WE p = (bit (DDRD p) 4 \<and> \<not> bit (PORTD p) 4)"
  "driven_low BUFFER_OE p = (bit (DDRD p) 5 \<and> \<not> bit (PORTD p) 5)"
  "driven_high FLASH_CE p = (bit (DDRD p) 2 \<and> bit (PORTD p) 2)"
  "driven_high FLASH_OE p = (bit (DDRD p) 3 \<and> bit (PORTD p) 3)"
  "driven_high FLASH_WE p = (bit (DDRD p) 4 \<and> bit (PORTD p) 4)"
  "driven_high BUFFER_OE p = (bit (DDRD p) 5 \<and> bit (PORTD p) 5)"
  by (simp_all add: driven_low_def driven_high_def mask_defs and4 and8 and16 and32)

lemma control_outputs_bits:
  "control_outputs p = (bit (DDRD p) 2 \<and> bit (DDRD p) 3 \<and> bit (DDRD p) 4)"
  by (simp add: control_outputs_def mask_defs and4 and8 and16)

lemma lines_idle_bits:
  "lines_idle p =
     (control_outputs p \<and> bit (PORTD p) 2 \<and> bit (PORTD p) 3 \<and> bit (PORTD p) 4)"
  by (auto simp add: lines_idle_def driven_bits control_outputs_bits)

lemma oe_we_conflict_bits:
  "oe_we_conflict p =
     (bit (DDRD p) 3 \<and> \<not> bit (PORTD p) 3 \<and> bit (DDRD p) 4 \<and> \<not> bit (PORTD p) 4)"
  by (auto simp add: oe_we_conflict_def driven_bits)

lemma strobe_of_bits:
  "strobe_of p =
     (if bit (DDRD p) 2 \<and> \<not> bit (PORTD p) 2 \<and> bit (DDRD p) 4 \<and> \<not> bit (PORTD p) 4 \<and>
         bit (DDRD p) 3 \<and> bit (PORTD p) 3 then WriteStrobe
      else if bit (DDRD p) 2 \<and> \<not> bit (PORTD p) 2 \<and> bit (DDRD p) 3 \<and> \<not> bit (PORTD p) 3 \<and>
         bit (DDRD p) 4 \<and> bit (PORTD p) 4 then ReadStrobe
      else NoStrobe)"
  by (simp add: strobe_of_def driven_bits)

lemmas pin_bits = driven_bits control_outputs_bits lines_idle_bits oe_we_conflict_bits

lemma steps_simps [simp]: "steps [] s = s" "steps (f # fs) s = steps fs (f s)"
  by (simp_all add: steps_def)

lemma store_fields [simp]:
  "pins (store f s) = f (pins s)"
  "rx (store f s) = rx s"
  "world (store f s) = world s"
  "events (store f s) = events s @ [Pins (f (pins s))]"
  by (simp_all add: store_def Let_def)

lemma delayMicroseconds_fields [simp]:
  "pins (delayMicroseconds n s) = pins s"
  "rx (delayMicroseconds n s) = rx s"
  "world (delayMicroseconds n s) = world s"
  "events (delayMicroseconds n s) = events s @ [DelayMicroseconds n]"
  by (simp_all add: delayMicroseconds_def)

lemma delay_fields [simp]:
  "pins (delay n s) = pins s"
  "rx (delay n s) = rx s"
  "world (delay n s) = world s"
  "events (delay n s) = events s @ [Delay n]"
  by (simp_all add: delay_def)

lemma serialPrint_fields [simp]:
  "pins (serialPrint str s) = pins s"
  "rx (serialPrint str s) = rx s"
  "world (serialPrint str s) = world s"
  "events (serialPrint str s) = events s @ [SerialPrint str]"
  by (simp_all add: serialPrint_def)

lemma serialPrintln_fields [simp]:
  "pins (serialPrintln str s) = pins s"
  "rx (serialPrintln str s) = rx s"
  "world (serialPrintln str s) = world s"
  "events (serialPrintln str s) = events s @ [SerialPrintln str]"
  by (simp_all add: serialPrintln_def)

lemma serialBegin_fields [simp]:
  "pins (serialBegin n s) = pins s"
  "rx (serialBegin n s) = rx s"
  "world (serialBegin n s) = world s"
  "events (serialBegin n s) = events s @ [SerialBegin n]"
  by (simp_all add: serialBegin_def)

lemmas stmt_defs = assign_def set_bits_def clear_bits_def

lemma word_cat_split:
  "word_cat (ucast (drop_bit 8 a) :: byte) (ucast a :: byte) = (a :: uint16)"
  by (rule bit_word_eqI) (auto simp add: bit_simps)

lemma bus_view_append: "bus_view (evs @ evs') = foldl observe (bus_view evs) evs'"
  by (simp add: bus_view_def)

lemmas recorder_defs = pins_change_def enter_def elapse_def strobe_of_bits

section \<open>The write cycle of \<open>writeByte\<close>\<close>

lemma writeByte_rx [simp]: "rx (writeByte a d s) = rx s"
  by (simp add: writeByte_def stmt_defs)

lemma writeByte_world [simp]: "world (writeByte a d s) = world s"
  by (simp add: writeByte_def stmt_defs)

lemma writeByte_ddr [simp]:
  "DDRA (pins (writeByte a d s)) = DDRA (pins s)"
  "DDRB (pins (writeByte a d s)) = DDRB (pins s)"
  "DDRC (pins (writeByte a d s)) = DDRC (pins s)"
  "DDRD (pins (writeByte a d s)) = DDRD (pins s)"
  by (simp_all add: writeByte_def stmt_defs)

lemma writeByte_control_outputs [simp]:
  "control_outputs (pins (writeByte a d s)) = control_outputs (pins s)"
  by (simp add: control_outputs_def)

lemma writeByte_buses_output [simp]:
  "buses_output (pins (writeByte a d s)) = buses_output (pins s)"
  by (simp add: buses_output_def)

lemma writeByte_view:
  assumes "control_outputs (pins s)" and "buses_output (pins s)"
    and "phase (bus_view (events s)) = Standby"
  shows "bus_view (events (writeByte a d s)) =
     (bus_view (events s))
       \<lparr>cycles := cycles (bus_view (events s)) @ write_cycles [(a, d)]\<rparr>"
  using assms
  by (simp add: writeByte_def stmt_defs mask_defs bus_view_append recorder_defs
      control_outputs_bits bit_simps addr_bus_def data_bus_def buses_output_def
      word_cat_split write_cycles_def)

lemma writeByte_view_phase:
  assumes "control_outputs (pins s)" and "buses_output (pins s)"
    and "phase (bus_view (events s)) = Standby"
  shows "phase (bus_view (events (writeByte a d s))) = Standby"
  using assms by (simp add: writeByte_view)

text \<open>
  C4. When the control lines are the controller's outputs and the address and data
  buses are in output mode (the state \<open>writePage\<close> and \<open>chipErase\<close> call it in),
  \<open>writeByte a d\<close> does exactly eight things. Four stores leave chip enable,
  output enable and write enable high and put \<open>a\<close> on the address bus and \<open>d\<close> on
  the data bus; one store pulls chip enable and write enable low together, output
  enable staying high and the buses unchanged; it waits one microsecond; one store
  raises all three lines; it waits one microsecond.
\<close>

theorem writeByte_signals:
  assumes "control_outputs (pins s)" and "buses_output (pins s)"
  shows "\<exists>p1 p2 p3 p4 p5 p6.
     events (writeByte a d s) =
       events s @ [Pins p1, Pins p2, Pins p3, Pins p4, Pins p5, DelayMicroseconds 1,
                   Pins p6, DelayMicroseconds 1] \<and>
     lines_idle p1 \<and> lines_idle p2 \<and> lines_idle p3 \<and> lines_idle p4 \<and>
     addr_bus p4 = Some a \<and> data_bus p4 = Some d \<and>
     driven_low FLASH_CE p5 \<and> driven_low FLASH_WE p5 \<and> driven_high FLASH_OE p5 \<and>
     addr_bus p5 = Some a \<and> data_bus p5 = Some d \<and>
     lines_idle p6 \<and> pins (writeByte a d s) = p6"
  using assms unfolding pin_bits
  by (simp add: writeByte_def stmt_defs mask_defs bit_simps addr_bus_def data_bus_def
      buses_output_def word_cat_split)

theorem writeByte_signals_witness:
  "control_outputs (pins sequencer_board) \<and> buses_output (pins sequencer_board) \<and>
   (\<exists>p1 p2 p3 p4 p5 p6.
     events (writeByte 0x5555 0xAA sequencer_board) =
       events sequencer_board @
         [Pins p1, Pins p2, Pins p3, Pins p4, Pins p5, DelayMicroseconds 1,
          Pins p6, DelayMicroseconds 1] \<and>
     lines_idle p1 \<and> lines_idle p2 \<and> lines_idle p3 \<and> lines_idle p4 \<and>
     addr_bus p4 = Some 0x5555 \<and> data_bus p4 = Some 0xAA \<and>
     driven_low FLASH_CE p5 \<and> driven_low FLASH_WE p5 \<and> driven_high FLASH_OE p5 \<and>
     addr_bus p5 = Some 0x5555 \<and> data_bus p5 = Some 0xAA \<and>
     lines_idle p6 \<and> pins (writeByte 0x5555 0xAA sequencer_board) = p6)"
proof -
  have 1: "control_outputs (pins sequencer_board)"
    by (simp add: sequencer_board_def captured_board_def started_def captureOwnership_def setup_fn_def
        power_on_def reset_ports_def stmt_defs mask_defs control_outputs_def)
  have 2: "buses_output (pins sequencer_board)"
    by (simp add: sequencer_board_def stmt_defs buses_output_def)
  from writeByte_signals [OF 1 2, of "0x5555" "0xAA"] 1 2 show ?thesis
    by simp
qed


section \<open>Output enable and write enable\<close>

lemma safe_since_store:
  "safe_since n s \<Longrightarrow> \<not> oe_we_conflict (f (pins s)) \<Longrightarrow> safe_since n (store f s)"
  by (simp add: safe_since_def)

lemma safe_since_start: "\<not> oe_we_conflict (pins s) \<Longrightarrow> safe_since (length (events s)) s"
  by (simp add: safe_since_def)

lemma safe_since_writeByte: "safe_since n s \<Longrightarrow> safe_since n (writeByte a d s)"
  unfolding safe_since_def oe_we_conflict_bits
  by (simp add: writeByte_def stmt_defs mask_defs oe_we_conflict_bits bit_simps)

lemma safe_since_fold_writeByte:
  "safe_since n s \<Longrightarrow> safe_since n (fold (\<lambda>i. writeByte (f i) (g i)) xs s)"
  by (induction xs arbitrary: s) (simp_all add: safe_since_writeByte)

lemma safe_since_delay: "safe_since n s \<Longrightarrow> safe_since n (delay k s)"
  by (simp add: safe_since_def)

lemma safe_since_serialPrintln: "safe_since n s \<Longrightarrow> safe_since n (serialPrintln str s)"
  by (simp add: safe_since_def)

lemma safe_since_assign_ddr_port:
  "safe_since n s \<Longrightarrow> safe_since n (assign DDRA_update v s)"
  "safe_since n s \<Longrightarrow> safe_since n (assign DDRB_update v s)"
  "safe_since n s \<Longrightarrow> safe_since n (assign DDRC_update v s)"
  "safe_since n s \<Longrightarrow> safe_since n (assign PORTA_update v s)"
  "safe_since n s \<Longrightarrow> safe_since n (assign PORTB_update v s)"
  "safe_since n s \<Longrightarrow> safe_since n (assign PORTC_update v s)"
  by (simp_all add: assign_def safe_since_store oe_we_conflict_bits)
     (simp_all add: safe_since_def oe_we_conflict_bits)

lemma safe_since_readByte: "safe_since n s \<Longrightarrow> safe_since n (snd (readByte a s))"
  unfolding safe_since_def oe_we_conflict_bits
  by (simp add: readByte_def read_PINC_def Let_def stmt_defs mask_defs oe_we_conflict_bits
      bit_simps)

lemma safe_since_writePage: "safe_since n s \<Longrightarrow> safe_since n (writePage a src s)"
  by (simp add: writePage_def safe_since_assign_ddr_port safe_since_writeByte
      safe_since_fold_writeByte safe_since_delay)

lemma safe_since_chipErase: "safe_since n s \<Longrightarrow> safe_since n (chipErase s)"
  by (simp add: chipErase_def safe_since_assign_ddr_port safe_since_writeByte
      safe_since_delay safe_since_serialPrintln)

lemma safe_since_captureOwnership: "safe_since n s \<Longrightarrow> safe_since n (captureOwnership s)"
  unfolding safe_since_def oe_we_conflict_bits
  by (simp add: captureOwnership_def stmt_defs mask_defs oe_we_conflict_bits bit_simps)

lemma safe_since_releaseOwnership: "safe_since n s \<Longrightarrow> safe_since n (releaseOwnership s)"
  unfolding safe_since_def oe_we_conflict_bits
  by (simp add: releaseOwnership_def stmt_defs mask_defs oe_we_conflict_bits bit_simps)

text \<open>
  C5. Entered with output enable and write enable not both asserted, each of
  \<open>writeByte\<close>, \<open>readByte\<close>, \<open>writePage\<close>, \<open>chipErase\<close>, \<open>captureOwnership\<close> and
  \<open>releaseOwnership\<close> leaves them so after every one of its stores and on return.
\<close>

theorem oe_we_never_both_asserted:
  assumes "\<not> oe_we_conflict (pins s)"
  shows "safe_since (length (events s)) (writeByte a d s) \<and>
         safe_since (length (events s)) (snd (readByte b s)) \<and>
         safe_since (length (events s)) (writePage c src s) \<and>
         safe_since (length (events s)) (chipErase s) \<and>
         safe_since (length (events s)) (captureOwnership s) \<and>
         safe_since (length (events s)) (releaseOwnership s)"
  using safe_since_start [OF assms]
  by (simp add: safe_since_writeByte safe_since_readByte safe_since_writePage
      safe_since_chipErase safe_since_captureOwnership safe_since_releaseOwnership)

lemma captured_board_pins:
  "pins captured_board =
     \<lparr>DDRA = 0, DDRB = 0, DDRC = 0, DDRD = 0x3C, PORTA = 0, PORTB = 0, PORTC = 0,
      PORTD = 0x3C\<rparr>"
  by (simp add: captured_board_def started_def captureOwnership_def setup_fn_def power_on_def
      reset_ports_def stmt_defs mask_defs)

theorem oe_we_never_both_asserted_witness:
  "\<not> oe_we_conflict (pins captured_board) \<and>
   safe_since (length (events captured_board)) (writeByte 0x5555 0xAA captured_board) \<and>
   safe_since (length (events captured_board)) (snd (readByte 0x0180 captured_board)) \<and>
   safe_since (length (events captured_board))
     (writePage 0x0180 (replicate PAGE_SIZE 0) captured_board) \<and>
   safe_since (length (events captured_board)) (chipErase captured_board) \<and>
   safe_since (length (events captured_board)) (captureOwnership captured_board) \<and>
   safe_since (length (events captured_board)) (releaseOwnership captured_board)"
proof -
  have 1: "\<not> oe_we_conflict (pins captured_board)"
    by (simp add: captured_board_pins oe_we_conflict_bits)
  from oe_we_never_both_asserted [OF 1, of "0x5555" "0xAA" "0x0180" "0x0180" "replicate PAGE_SIZE 0"] 1
  show ?thesis by simp
qed

text \<open>
  The condition on entry is about the state the operation starts in, not about
  the whole history: start-up, which is not one of these operations, makes the
  control pins outputs before it sets them high, and in between all of them are
  driven low.
\<close>

lemma start_up_drives_lines_low:
  "Pins (reset_ports\<lparr>DDRD := 0x3C\<rparr>) \<in> set (events (started input)) \<and>
   oe_we_conflict (reset_ports\<lparr>DDRD := 0x3C\<rparr>) \<and>
   \<not> oe_we_conflict (pins (started input))"
  unfolding oe_we_conflict_bits
  by (simp add: started_def setup_fn_def power_on_def reset_ports_def stmt_defs mask_defs)


section \<open>The bus cycles of page write and chip erase\<close>

lemma write_cycles_Nil [simp]: "write_cycles [] = []"
  by (simp add: write_cycles_def)

lemma write_cycles_Cons:
  "write_cycles ((a, d) # ws) = [BusWrite (Some a) (Some d) 1, Gap 1] @ write_cycles ws"
  by (simp add: write_cycles_def)

lemma write_cycles_append: "write_cycles (ws @ ws') = write_cycles ws @ write_cycles ws'"
  by (simp add: write_cycles_def)

lemma lines_idle_NoStrobe: "lines_idle p \<Longrightarrow> strobe_of p = NoStrobe"
  by (simp add: strobe_of_bits lines_idle_bits)

lemma writeByte_lines_idle:
  "control_outputs (pins s) \<Longrightarrow> lines_idle (pins (writeByte a d s))"
  unfolding pin_bits by (simp add: writeByte_def stmt_defs mask_defs bit_simps)

lemma lines_idle_control_outputs: "lines_idle p \<Longrightarrow> control_outputs p"
  by (simp add: lines_idle_bits)

lemma fold_writeByte_pins:
  "DDRA (pins (fold (\<lambda>i. writeByte (f i) (g i)) xs s)) = DDRA (pins s) \<and>
   DDRB (pins (fold (\<lambda>i. writeByte (f i) (g i)) xs s)) = DDRB (pins s) \<and>
   DDRC (pins (fold (\<lambda>i. writeByte (f i) (g i)) xs s)) = DDRC (pins s) \<and>
   DDRD (pins (fold (\<lambda>i. writeByte (f i) (g i)) xs s)) = DDRD (pins s)"
  by (induction xs arbitrary: s) simp_all

lemma fold_writeByte_lines_idle:
  "lines_idle (pins s) \<Longrightarrow> lines_idle (pins (fold (\<lambda>i. writeByte (f i) (g i)) xs s))"
  by (induction xs arbitrary: s)
     (simp_all add: writeByte_lines_idle lines_idle_control_outputs)

lemma fold_writeByte_view:
  assumes "control_outputs (pins s)" and "buses_output (pins s)"
    and "phase (view s) = Standby"
  shows "view (fold (\<lambda>i. writeByte (f i) (g i)) xs s) =
     (view s)\<lparr>cycles := cycles (view s) @ write_cycles (map (\<lambda>i. (f i, g i)) xs)\<rparr>"
  using assms
proof (induction xs arbitrary: s)
  case Nil
  then show ?case by simp
next
  case (Cons x xs)
  have "view (fold (\<lambda>i. writeByte (f i) (g i)) xs (writeByte (f x) (g x) s)) =
        (view (writeByte (f x) (g x) s))
          \<lparr>cycles := cycles (view (writeByte (f x) (g x) s)) @
             write_cycles (map (\<lambda>i. (f i, g i)) xs)\<rparr>"
    using Cons.prems by (intro Cons.IH) (simp_all add: writeByte_view_phase)
  then show ?case
    using Cons.prems by (simp add: writeByte_view write_cycles_Cons)
qed

text \<open>The state of the registers in which the sequencers write: buses out, lines idle.\<close>

lemma sequencer_entry:
  assumes "lines_idle (pins s)" and "phase (view s) = Standby"
  defines "s' \<equiv> steps [assign DDRA_update 0xff, assign DDRB_update 0xff,
                          assign DDRC_update 0xff] s"
  shows "lines_idle (pins s')" and "buses_output (pins s')" and "view s' = view s"
proof -
  show "lines_idle (pins s')" "buses_output (pins s')"
    using assms(1) by (simp_all add: s'_def stmt_defs lines_idle_bits control_outputs_bits
        buses_output_def)
  show "view s' = view s"
    using assms(1,2)
    by (simp add: s'_def stmt_defs bus_view_append pins_change_def enter_def strobe_of_bits
        lines_idle_bits control_outputs_bits)
qed

lemma sequencer_exit:
  assumes "lines_idle (pins s)" and "phase (view s) = Standby"
  defines "s' \<equiv> steps [assign DDRA_update 0, assign DDRB_update 0, assign DDRC_update 0,
                          assign PORTA_update 0, assign PORTB_update 0,
                          assign PORTC_update 0] s"
  shows "lines_idle (pins s')" and "view s' = view s"
proof -
  show "lines_idle (pins s')"
    using assms(1) by (simp add: s'_def stmt_defs lines_idle_bits control_outputs_bits)
  show "view s' = view s"
    using assms(1,2)
    by (simp add: s'_def stmt_defs bus_view_append pins_change_def enter_def strobe_of_bits
        lines_idle_bits control_outputs_bits)
qed

lemma writeBytes_view:
  assumes "lines_idle (pins s)" and "buses_output (pins s)" and "phase (view s) = Standby"
  shows "view (steps (map (\<lambda>(a, d). writeByte a d) ws) s) =
           (view s)\<lparr>cycles := cycles (view s) @ write_cycles ws\<rparr> \<and>
         lines_idle (pins (steps (map (\<lambda>(a, d). writeByte a d) ws) s)) \<and>
         buses_output (pins (steps (map (\<lambda>(a, d). writeByte a d) ws) s))"
  using assms
proof (induction ws arbitrary: s)
  case Nil
  then show ?case by simp
next
  case (Cons w ws)
  obtain a d where w: "w = (a, d)" by (cases w)
  let ?s = "writeByte a d s"
  have co: "control_outputs (pins s)" using Cons.prems(1) by (rule lines_idle_control_outputs)
  have 1: "lines_idle (pins ?s)" using co by (rule writeByte_lines_idle)
  have 2: "buses_output (pins ?s)" using Cons.prems(2) by simp
  have 3: "phase (view ?s) = Standby"
    using co Cons.prems(2,3) by (rule writeByte_view_phase)
  have 4: "view ?s = (view s)\<lparr>cycles := cycles (view s) @ write_cycles [(a, d)]\<rparr>"
    using co Cons.prems(2,3) by (rule writeByte_view)
  from Cons.IH [OF 1 2 3] show ?case
    by (simp add: w 4 write_cycles_Cons)
qed


lemma writePage_steps:
  "writePage address src s =
     steps [assign DDRA_update 0, assign DDRB_update 0, assign DDRC_update 0,
            assign PORTA_update 0, assign PORTB_update 0, assign PORTC_update 0]
       (delay 10
         (fold (\<lambda>i. writeByte (address + of_nat i) (src ! i)) [0..<PAGE_SIZE]
           (steps (map (\<lambda>(a, d). writeByte a d) [(0x5555, 0xAA), (0x2AAA, 0x55), (0x5555, 0xA0)])
             (steps [assign DDRA_update 0xff, assign DDRB_update 0xff,
                     assign DDRC_update 0xff] s))))"
  by (simp add: writePage_def)

lemma zip_page_addresses:
  "length src = PAGE_SIZE \<Longrightarrow>
     map (\<lambda>i. (base + of_nat i, src ! i)) [0..<PAGE_SIZE] = zip (page_addresses base) src"
  by (auto simp add: page_addresses_def list_eq_iff_nth_eq)

lemma writePage_view:
  assumes idle: "lines_idle (pins s)" and standby: "phase (view s) = Standby"
    and len: "length src = PAGE_SIZE"
  shows "view (writePage base src s) =
           (view s)\<lparr>cycles := cycles (view s) @
              write_cycles ([(0x5555, 0xAA), (0x2AAA, 0x55), (0x5555, 0xA0)] @
                            zip (page_addresses base) src) @
              [Gap 10000]\<rparr>"
    and "lines_idle (pins (writePage base src s))"
proof -
  define s1 where "s1 = steps [assign DDRA_update 0xff, assign DDRB_update 0xff,
                               assign DDRC_update 0xff] s"
  define s2 where "s2 = steps (map (\<lambda>(a, d). writeByte a d)
                                [(0x5555, 0xAA), (0x2AAA, 0x55), (0x5555, 0xA0)]) s1"
  define s3 where "s3 = fold (\<lambda>i. writeByte (base + of_nat i) (src ! i)) [0..<PAGE_SIZE] s2"
  define s4 where "s4 = delay 10 s3"
  have s1: "lines_idle (pins s1)" "buses_output (pins s1)" "view s1 = view s"
    unfolding s1_def using idle standby by (rule sequencer_entry)+
  have s2: "view s2 = (view s)\<lparr>cycles := cycles (view s) @
                write_cycles [(0x5555, 0xAA), (0x2AAA, 0x55), (0x5555, 0xA0)]\<rparr>"
    "lines_idle (pins s2)" "buses_output (pins s2)"
    unfolding s2_def using writeBytes_view [OF s1(1,2), of "[(0x5555, 0xAA), (0x2AAA, 0x55), (0x5555, 0xA0)]"]
      s1(3) standby by simp_all
  have s3: "view s3 = (view s)\<lparr>cycles := cycles (view s) @
                write_cycles ([(0x5555, 0xAA), (0x2AAA, 0x55), (0x5555, 0xA0)] @
                              zip (page_addresses base) src)\<rparr>"
    unfolding s3_def
    using fold_writeByte_view [of s2 "\<lambda>i. base + of_nat i" "\<lambda>i. src ! i" "[0..<PAGE_SIZE]"]
      s2 standby len
    by (simp add: lines_idle_control_outputs zip_page_addresses write_cycles_def)
  have s3': "lines_idle (pins s3)"
    unfolding s3_def using s2(2) by (rule fold_writeByte_lines_idle)
  have s4: "view s4 = (view s)\<lparr>cycles := cycles (view s) @
                write_cycles ([(0x5555, 0xAA), (0x2AAA, 0x55), (0x5555, 0xA0)] @
                              zip (page_addresses base) src) @ [Gap 10000]\<rparr>"
    "lines_idle (pins s4)"
    unfolding s4_def using s3 s3' standby by (simp_all add: bus_view_append elapse_def)
  have s4': "phase (view s4) = Standby"
    using s4(1) standby by simp
  have eq: "writePage base src s =
      steps [assign DDRA_update 0, assign DDRB_update 0, assign DDRC_update 0,
             assign PORTA_update 0, assign PORTB_update 0, assign PORTC_update 0] s4"
    by (simp only: writePage_steps s1_def s2_def s3_def s4_def)
  show "view (writePage base src s) =
           (view s)\<lparr>cycles := cycles (view s) @
              write_cycles ([(0x5555, 0xAA), (0x2AAA, 0x55), (0x5555, 0xA0)] @
                            zip (page_addresses base) src) @
              [Gap 10000]\<rparr>"
    unfolding eq using sequencer_exit(2) [OF s4(2) s4'] s4(1) by simp
  show "lines_idle (pins (writePage base src s))"
    unfolding eq using s4(2) s4' by (rule sequencer_exit(1))
qed

lemma captured_board_idle: "lines_idle (pins captured_board)"
  by (simp add: captured_board_pins lines_idle_bits control_outputs_bits)

lemma captured_board_view: "view captured_board = \<lparr>phase = Standby, cycles = []\<rparr>"
  by (simp add: captured_board_def started_def captureOwnership_def setup_fn_def power_on_def
      reset_ports_def stmt_defs mask_defs bus_view_def recorder_defs)

lemma unat_add_of_nat:
  assumes "unat (base :: uint16) + i < 2 ^ LENGTH(16)"
  shows "unat (base + of_nat i) = unat base + i"
proof -
  from assms have "i < 2 ^ LENGTH(16)" by simp
  then have "unat (of_nat i :: uint16) = i" by (simp only: unat_of_nat mod_less)
  then have "unat (base + of_nat i) = (unat base + i) mod 2 ^ LENGTH(16)"
    by (simp only: unat_word_ariths(1))
  with assms show ?thesis by (simp only: mod_less)
qed

lemma page_addresses_ascending:
  assumes "unat (base :: uint16) + 127 < 2 ^ 16"
  shows "sorted_wrt (<) (map (\<lambda>i. base + of_nat i) [0..<128])"
proof -
  have "base + of_nat i < base + of_nat j" if "i < j" "j < 128" for i j :: nat
  proof -
    from that assms have "unat base + i < 2 ^ LENGTH(16)" "unat base + j < 2 ^ LENGTH(16)"
      by simp_all
    then have "unat (base + of_nat i) = unat base + i" "unat (base + of_nat j) = unat base + j"
      by (simp_all only: unat_add_of_nat)
    with that(1) show ?thesis by (simp add: word_less_nat_alt)
  qed
  then show ?thesis
    by (simp add: sorted_wrt_iff_nth_less)
qed

text \<open>
  C2. Called with the control lines idle and no cycle in progress, on any base
  address and any buffer of 128 bytes, \<open>writePage\<close> adds to what the chip has
  seen exactly: the write cycles \<open>0xAA\<close> to \<open>0x5555\<close>, \<open>0x55\<close> to \<open>0x2AAA\<close>,
  \<open>0xA0\<close> to \<open>0x5555\<close>, then the 128 write cycles of the buffer bytes to
  \<open>base + 0\<close>, ..., \<open>base + 127\<close> in the order of the index, then a gap of 10 ms;
  nothing else, and no cycle is left open. The addresses are computed in 16 bits;
  where \<open>base + 127\<close> does not exceed \<open>0xFFFF\<close> they are strictly ascending.
\<close>

theorem writePage_bus_cycles:
  assumes "lines_idle (pins s)" and "phase (view s) = Standby" and "length src = PAGE_SIZE"
  shows "cycles (view (writePage base src s)) =
           cycles (view s) @
           write_cycles ([(0x5555, 0xAA), (0x2AAA, 0x55), (0x5555, 0xA0)] @
                         zip (map (\<lambda>i. base + of_nat i) [0..<128]) src) @
           [Gap 10000] \<and>
         phase (view (writePage base src s)) = Standby \<and>
         (unat base + 127 < 2 ^ 16 \<longrightarrow>
            sorted_wrt (<) (map (\<lambda>i. base + of_nat i) [0..<128]))"
  using writePage_view(1) [OF assms, of base] assms(2) page_addresses_ascending [of base]
  by (simp add: page_addresses_def PAGE_SIZE_def)

theorem writePage_bus_cycles_witness:
  "lines_idle (pins captured_board) \<and> phase (view captured_board) = Standby \<and>
   length (replicate PAGE_SIZE (0x5A :: byte)) = PAGE_SIZE \<and>
   unat (0x0180 :: uint16) + 127 < 2 ^ 16 \<and>
   cycles (view (writePage 0x0180 (replicate PAGE_SIZE 0x5A) captured_board)) =
     cycles (view captured_board) @
     write_cycles ([(0x5555, 0xAA), (0x2AAA, 0x55), (0x5555, 0xA0)] @
                   zip (map (\<lambda>i. 0x0180 + of_nat i) [0..<128]) (replicate PAGE_SIZE 0x5A)) @
     [Gap 10000] \<and>
   phase (view (writePage 0x0180 (replicate PAGE_SIZE 0x5A) captured_board)) = Standby \<and>
   sorted_wrt (<) (map (\<lambda>i. (0x0180 :: uint16) + of_nat i) [0..<128])"
proof -
  have 1: "phase (view captured_board) = Standby" by (simp add: captured_board_view)
  have 2: "length (replicate PAGE_SIZE (0x5A :: byte)) = PAGE_SIZE" by simp
  have 3: "unat (0x0180 :: uint16) + 127 < 2 ^ 16" by simp
  from writePage_bus_cycles [OF captured_board_idle 1 2, of "0x0180"] captured_board_idle 1 3
  show ?thesis by simp
qed

lemma chipErase_steps:
  "chipErase s =
     steps [assign DDRA_update 0, assign DDRB_update 0, assign DDRC_update 0,
            assign PORTA_update 0, assign PORTB_update 0, assign PORTC_update 0]
       (delay 50
         (steps (map (\<lambda>(a, d). writeByte a d)
                   [(0x5555, 0xAA), (0x2AAA, 0x55), (0x5555, 0x80),
                    (0x5555, 0xAA), (0x2AAA, 0x55), (0x5555, 0x10)])
           (steps [assign DDRA_update 0xff, assign DDRB_update 0xff,
                   assign DDRC_update 0xff] (serialPrintln ''Erasing chip...'' s))))"
  by (simp add: chipErase_def)

lemma chipErase_view:
  assumes idle: "lines_idle (pins s)" and standby: "phase (view s) = Standby"
  shows "view (chipErase s) =
           (view s)\<lparr>cycles := cycles (view s) @
              write_cycles [(0x5555, 0xAA), (0x2AAA, 0x55), (0x5555, 0x80),
                            (0x5555, 0xAA), (0x2AAA, 0x55), (0x5555, 0x10)] @
              [Gap 50000]\<rparr>"
proof -
  define s0 where "s0 = serialPrintln ''Erasing chip...'' s"
  define s1 where "s1 = steps [assign DDRA_update 0xff, assign DDRB_update 0xff,
                               assign DDRC_update 0xff] s0"
  define s2 where "s2 = steps (map (\<lambda>(a, d). writeByte a d)
                                [(0x5555, 0xAA), (0x2AAA, 0x55), (0x5555, 0x80),
                                 (0x5555, 0xAA), (0x2AAA, 0x55), (0x5555, 0x10)]) s1"
  define s3 where "s3 = delay 50 s2"
  have s0: "lines_idle (pins s0)" "phase (view s0) = Standby" "view s0 = view s"
    unfolding s0_def using idle standby by (simp_all add: bus_view_append)
  have s1: "lines_idle (pins s1)" "buses_output (pins s1)" "view s1 = view s0"
    unfolding s1_def using s0(1,2) by (rule sequencer_entry)+
  have s2: "view s2 = (view s)\<lparr>cycles := cycles (view s) @
                write_cycles [(0x5555, 0xAA), (0x2AAA, 0x55), (0x5555, 0x80),
                              (0x5555, 0xAA), (0x2AAA, 0x55), (0x5555, 0x10)]\<rparr>"
    "lines_idle (pins s2)"
    unfolding s2_def
    using writeBytes_view [OF s1(1,2), of "[(0x5555, 0xAA), (0x2AAA, 0x55), (0x5555, 0x80),
                                            (0x5555, 0xAA), (0x2AAA, 0x55), (0x5555, 0x10)]"]
      s1(3) s0(3) standby by simp_all
  have s3: "view s3 = (view s)\<lparr>cycles := cycles (view s) @
                write_cycles [(0x5555, 0xAA), (0x2AAA, 0x55), (0x5555, 0x80),
                              (0x5555, 0xAA), (0x2AAA, 0x55), (0x5555, 0x10)] @
                [Gap 50000]\<rparr>"
    "lines_idle (pins s3)"
    unfolding s3_def using s2 standby by (simp_all add: bus_view_append elapse_def)
  have s3': "phase (view s3) = Standby"
    using s3(1) standby by simp
  have eq: "chipErase s =
      steps [assign DDRA_update 0, assign DDRB_update 0, assign DDRC_update 0,
             assign PORTA_update 0, assign PORTB_update 0, assign PORTC_update 0] s3"
    by (simp only: chipErase_steps s0_def s1_def s2_def s3_def)
  show ?thesis
    unfolding eq using sequencer_exit(2) [OF s3(2) s3'] s3(1) by simp
qed

text \<open>
  C3. Called with the control lines idle and no cycle in progress, \<open>chipErase\<close>
  adds to what the chip has seen exactly the six write cycles \<open>0xAA\<close> to
  \<open>0x5555\<close>, \<open>0x55\<close> to \<open>0x2AAA\<close>, \<open>0x80\<close> to \<open>0x5555\<close>, \<open>0xAA\<close> to
  \<open>0x5555\<close>, \<open>0x55\<close> to \<open>0x2AAA\<close>, \<open>0x10\<close> to \<open>0x5555\<close> and then a gap of
  50 ms. The list is the same on every board: it depends neither on the serial
  input nor on anything a caller could supply.
\<close>

theorem chipErase_bus_cycles:
  assumes "lines_idle (pins s)" and "phase (view s) = Standby"
  shows "cycles (view (chipErase s)) =
           cycles (view s) @
           [BusWrite (Some 0x5555) (Some 0xAA) 1, Gap 1,
            BusWrite (Some 0x2AAA) (Some 0x55) 1, Gap 1,
            BusWrite (Some 0x5555) (Some 0x80) 1, Gap 1,
            BusWrite (Some 0x5555) (Some 0xAA) 1, Gap 1,
            BusWrite (Some 0x2AAA) (Some 0x55) 1, Gap 1,
            BusWrite (Some 0x5555) (Some 0x10) 1, Gap 1,
            Gap 50000] \<and>
         phase (view (chipErase s)) = Standby"
  using chipErase_view [OF assms] assms(2) by (simp add: write_cycles_def)

theorem chipErase_bus_cycles_witness:
  "lines_idle (pins captured_board) \<and> phase (view captured_board) = Standby \<and>
   cycles (view (chipErase captured_board)) =
     cycles (view captured_board) @
     [BusWrite (Some 0x5555) (Some 0xAA) 1, Gap 1,
      BusWrite (Some 0x2AAA) (Some 0x55) 1, Gap 1,
      BusWrite (Some 0x5555) (Some 0x80) 1, Gap 1,
      BusWrite (Some 0x5555) (Some 0xAA) 1, Gap 1,
      BusWrite (Some 0x2AAA) (Some 0x55) 1, Gap 1,
      BusWrite (Some 0x5555) (Some 0x10) 1, Gap 1,
      Gap 50000] \<and>
   phase (view (chipErase captured_board)) = Standby"
proof -
  have 1: "phase (view captured_board) = Standby" by (simp add: captured_board_view)
  from chipErase_bus_cycles [OF captured_board_idle 1] captured_board_idle 1
  show ?thesis by simp
qed


section \<open>Filling the page buffer\<close>

lemma readSerial_Cons: "rx s = c # cs \<Longrightarrow> readSerial s = Some (c, s\<lparr>rx := cs\<rparr>)"
  by (simp add: readSerial_def)

lemma read_pairs:
  assumes "i + length ps \<le> PAGE_SIZE" and "length buffer = PAGE_SIZE"
    and "\<forall>(h, l) \<in> set ps. h \<noteq> chr CHR ''*'' \<and> l \<noteq> chr CHR ''*''"
    and "rx s = pair_chars ps @ cs"
  shows "writePageHex_read i buffer s =
           writePageHex_read (i + length ps)
             (take i buffer @ decode_pairs ps @ drop (i + length ps) buffer) (s\<lparr>rx := cs\<rparr>)"
  using assms
proof (induction ps arbitrary: i buffer s)
  case Nil
  then have "s\<lparr>rx := cs\<rparr> = s" by (simp add: pair_chars_def)
  then show ?case by (simp add: decode_pairs_def)
next
  case (Cons p ps)
  obtain h l where p: "p = (h, l)" by (cases p)
  let ?v = "push_bit 4 (ascToNibble h) OR ascToNibble l"
  let ?s = "s\<lparr>rx := pair_chars ps @ cs\<rparr>"
  from Cons.prems p have i: "i < PAGE_SIZE" and hl: "h \<noteq> chr CHR ''*''" "l \<noteq> chr CHR ''*''"
    and rx: "rx s = h # l # pair_chars ps @ cs"
    by (simp_all add: pair_chars_def)
  have step: "writePageHex_read i buffer s = writePageHex_read (Suc i) (buffer[i := ?v]) ?s"
    using i hl rx
    by (subst writePageHex_read.simps) (simp add: readSerial_Cons)
  have "writePageHex_read (Suc i) (buffer[i := ?v]) ?s =
          writePageHex_read (Suc i + length ps)
            (take (Suc i) (buffer[i := ?v]) @ decode_pairs ps @
             drop (Suc i + length ps) (buffer[i := ?v])) (?s\<lparr>rx := cs\<rparr>)"
    using Cons.prems p by (intro Cons.IH) simp_all
  moreover have "take (Suc i) (buffer[i := ?v]) = take i buffer @ [?v]"
    using i Cons.prems(2) by (simp add: take_Suc_conv_app_nth)
  ultimately show ?case
    using step by (simp add: p decode_pairs_def)
qed

lemma read_sentinel_high:
  assumes "i < PAGE_SIZE" and "rx s = chr CHR ''*'' # cs"
  shows "writePageHex_read i buffer s = Some (buffer, s\<lparr>rx := cs\<rparr>)"
  using assms by (subst writePageHex_read.simps) (simp add: readSerial_Cons)

lemma read_sentinel_low:
  assumes "i < PAGE_SIZE" and "h \<noteq> chr CHR ''*''" and "rx s = h # chr CHR ''*'' # cs"
  shows "writePageHex_read i buffer s = Some (buffer, s\<lparr>rx := cs\<rparr>)"
  using assms by (subst writePageHex_read.simps) (simp add: readSerial_Cons)

lemma pairs_of_chars:
  "pair_chars (pairs_of cs) @ (if even (length cs) then [] else [last cs]) = cs"
  by (induction cs rule: pairs_of.induct) (auto simp add: pair_chars_def)

lemma length_pairs_of: "length (pairs_of cs) = length cs div 2"
  by (induction cs rule: pairs_of.induct) simp_all

lemma set_pairs_of: "(h, l) \<in> set (pairs_of cs) \<Longrightarrow> h \<in> set cs \<and> l \<in> set cs"
  by (induction cs rule: pairs_of.induct) auto

lemma input_split:
  assumes "chr CHR ''*'' \<in> set cs"
  shows "cs = before_sentinel cs @ chr CHR ''*'' # after_sentinel cs"
proof -
  let ?P = "\<lambda>c. c \<noteq> chr CHR ''*''"
  from assms have ne: "dropWhile ?P cs \<noteq> []" by (simp add: dropWhile_eq_Nil_conv)
  then have "hd (dropWhile ?P cs) = chr CHR ''*''"
    using hd_dropWhile [of ?P cs] by simp
  with ne have "dropWhile ?P cs = chr CHR ''*'' # tl (dropWhile ?P cs)"
    by (cases "dropWhile ?P cs") simp_all
  then show ?thesis
    using takeWhile_dropWhile_id [of ?P cs]
    by (simp add: before_sentinel_def after_sentinel_def)
qed

lemma before_sentinel_free: "c \<in> set (before_sentinel cs) \<Longrightarrow> c \<noteq> chr CHR ''*''"
  by (auto simp add: before_sentinel_def dest: set_takeWhileD)

text \<open>
  The loop on any input that has the sentinel after fewer than 128 pairs: the
  pairs before the sentinel are decoded into the front of the cleared buffer, a
  last unpaired character is dropped, and the input is consumed up to and
  including the sentinel.
\<close>

lemma read_stream:
  assumes star: "chr CHR ''*'' \<in> set (rx s)"
    and short: "length (before_sentinel (rx s)) < 2 * PAGE_SIZE"
  shows "writePageHex_read 0 (replicate PAGE_SIZE 0) s =
           Some (decode_pairs (pairs_of (before_sentinel (rx s))) @
                   replicate (PAGE_SIZE - length (before_sentinel (rx s)) div 2) 0,
                 s\<lparr>rx := after_sentinel (rx s)\<rparr>)"
proof -
  let ?pre = "before_sentinel (rx s)"
  let ?ps = "pairs_of ?pre"
  let ?odd = "if even (length ?pre) then [] else [last ?pre]"
  let ?cs = "?odd @ chr CHR ''*'' # after_sentinel (rx s)"
  let ?buf = "decode_pairs ?ps @ replicate (PAGE_SIZE - length ?pre div 2) 0"
  have n: "length ?ps < PAGE_SIZE" using short by (simp add: length_pairs_of)
  have free: "\<forall>(h, l) \<in> set ?ps. h \<noteq> chr CHR ''*'' \<and> l \<noteq> chr CHR ''*''"
    using set_pairs_of before_sentinel_free by fastforce
  have "rx s = ?pre @ chr CHR ''*'' # after_sentinel (rx s)"
    by (rule input_split [OF star])
  also have "\<dots> = (pair_chars ?ps @ ?odd) @ chr CHR ''*'' # after_sentinel (rx s)"
    by (simp only: pairs_of_chars)
  finally have rx: "rx s = pair_chars ?ps @ ?cs"
    by (simp only: append_assoc)
  have "writePageHex_read 0 (replicate PAGE_SIZE 0) s =
          writePageHex_read (0 + length ?ps)
            (take 0 (replicate PAGE_SIZE 0) @ decode_pairs ?ps @
             drop (0 + length ?ps) (replicate PAGE_SIZE 0)) (s\<lparr>rx := ?cs\<rparr>)"
    using n free rx by (intro read_pairs) simp_all
  also have "\<dots> = writePageHex_read (length ?ps) ?buf (s\<lparr>rx := ?cs\<rparr>)"
    by (simp add: length_pairs_of)
  also have "\<dots> = Some (?buf, s\<lparr>rx := after_sentinel (rx s)\<rparr>)"
  proof (cases "even (length ?pre)")
    case True
    then show ?thesis using n by (simp add: read_sentinel_high)
  next
    case False
    then have "?pre \<noteq> []" by auto
    then have "last ?pre \<in> set ?pre" by simp
    then have "last ?pre \<noteq> chr CHR ''*''" by (rule before_sentinel_free)
    then show ?thesis using False n by (simp add: read_sentinel_low)
  qed
  finally show ?thesis .
qed

lemma captureOwnership_rx [simp]: "rx (captureOwnership s) = rx s"
  by (simp add: captureOwnership_def stmt_defs)

text \<open>
  C10. When the input is a run of fewer than 128 complete pairs, then one more
  character and the sentinel in the place of its partner, the loop stops there:
  the buffer is as if the lone character had not been sent (its position still
  holds zero), that buffer is what \<open>writePage\<close> gets, and of the input only what
  follows the sentinel is left.
\<close>

theorem sentinel_as_low_nibble:
  assumes "length ps < PAGE_SIZE"
    and "\<forall>(h, l) \<in> set ps. h \<noteq> chr CHR ''*'' \<and> l \<noteq> chr CHR ''*''"
    and "h \<noteq> chr CHR ''*''"
    and "rx s = pair_chars ps @ h # chr CHR ''*'' # cs"
  shows "\<exists>buffer.
     buffer = decode_pairs ps @ replicate (PAGE_SIZE - length ps) 0 \<and>
     buffer ! length ps = 0 \<and>
     writePageHex_read 0 (replicate PAGE_SIZE 0) (captureOwnership s) =
       Some (buffer, (captureOwnership s)\<lparr>rx := cs\<rparr>) \<and>
     writePageHex page s =
       Some (steps [serialPrint ''Writing page '',
                    serialPrintln (decimal (unat page)),
                    writePage (of_nat (unat page * PAGE_SIZE)) buffer,
                    releaseOwnership]
              ((captureOwnership s)\<lparr>rx := cs\<rparr>))"
proof -
  let ?s = "captureOwnership s"
  let ?buf = "decode_pairs ps @ replicate (PAGE_SIZE - length ps) 0"
  have "writePageHex_read 0 (replicate PAGE_SIZE 0) ?s =
          writePageHex_read (0 + length ps)
            (take 0 (replicate PAGE_SIZE 0) @ decode_pairs ps @
             drop (0 + length ps) (replicate PAGE_SIZE 0))
            (?s\<lparr>rx := h # chr CHR ''*'' # cs\<rparr>)"
    using assms by (intro read_pairs) simp_all
  also have "\<dots> = Some (?buf, ?s\<lparr>rx := cs\<rparr>)"
    using assms(1,3) by (simp add: read_sentinel_low)
  finally have rd: "writePageHex_read 0 (replicate PAGE_SIZE 0) ?s = Some (?buf, ?s\<lparr>rx := cs\<rparr>)" .
  have "?buf ! length ps = 0"
    using assms(1) by (simp add: nth_append decode_pairs_def)
  then show ?thesis
    using rd by (simp add: writePageHex_def)
qed

theorem sentinel_as_low_nibble_witness:
  "length [(chr CHR ''D'', chr CHR ''E'')] < PAGE_SIZE \<and>
   chr CHR ''D'' \<noteq> chr CHR ''*'' \<and> chr CHR ''E'' \<noteq> chr CHR ''*'' \<and>
   chr CHR ''A'' \<noteq> chr CHR ''*'' \<and>
   rx (power_on (map chr ''DEA*'')) =
     pair_chars [(chr CHR ''D'', chr CHR ''E'')] @ chr CHR ''A'' # chr CHR ''*'' # [] \<and>
   (\<exists>buffer.
     buffer = decode_pairs [(chr CHR ''D'', chr CHR ''E'')] @
              replicate (PAGE_SIZE - length [(chr CHR ''D'', chr CHR ''E'')]) 0 \<and>
     buffer ! length [(chr CHR ''D'', chr CHR ''E'')] = 0 \<and>
     writePageHex_read 0 (replicate PAGE_SIZE 0) (captureOwnership (power_on (map chr ''DEA*''))) =
       Some (buffer, (captureOwnership (power_on (map chr ''DEA*'')))\<lparr>rx := []\<rparr>) \<and>
     writePageHex 3 (power_on (map chr ''DEA*'')) =
       Some (steps [serialPrint ''Writing page '',
                    serialPrintln (decimal (unat (3 :: byte))),
                    writePage (of_nat (unat (3 :: byte) * PAGE_SIZE)) buffer,
                    releaseOwnership]
              ((captureOwnership (power_on (map chr ''DEA*'')))\<lparr>rx := []\<rparr>)))"
proof -
  have 1: "length [(chr CHR ''D'', chr CHR ''E'')] < PAGE_SIZE"
    by (simp add: PAGE_SIZE_def)
  have 2: "\<forall>(h, l) \<in> set [(chr CHR ''D'', chr CHR ''E'')].
             h \<noteq> chr CHR ''*'' \<and> l \<noteq> chr CHR ''*''"
    by (simp add: chr_def)
  have 3: "chr CHR ''A'' \<noteq> chr CHR ''*''"
    by (simp add: chr_def)
  have 4: "rx (power_on (map chr ''DEA*'')) =
             pair_chars [(chr CHR ''D'', chr CHR ''E'')] @ chr CHR ''A'' # chr CHR ''*'' # []"
    by (simp add: power_on_def pair_chars_def)
  have 5: "chr CHR ''D'' \<noteq> chr CHR ''*'' \<and> chr CHR ''E'' \<noteq> chr CHR ''*''"
    by (simp add: chr_def)
  from sentinel_as_low_nibble [OF 1 2 3 4, of 3] 1 3 4 5 show ?thesis
    by blast
qed


section \<open>The commands on the bus\<close>

lemma capture_glitch_bits:
  "capture_glitch p =
     (if \<not> bit (PORTD p) 2 \<and> \<not> bit (PORTD p) 3 then [BusRead (addr_bus p) 0] else [])"
  by (simp add: capture_glitch_def mask_defs and4 and8)

lemma between_commands_bits:
  "between_commands p =
     (bit (DDRD p) 3 \<and> bit (DDRD p) 4 \<and> bit (PORTD p) 4 \<and>
      (bit (DDRD p) 2 \<longrightarrow> bit (PORTD p) 2))"
  unfolding between_commands_def driven_bits by (auto simp add: mask_defs and8)

lemma strobe_of_other_regs [simp]:
  "strobe_of (DDRA_update fa p) = strobe_of p"
  "strobe_of (DDRB_update fb p) = strobe_of p"
  "strobe_of (DDRC_update fc p) = strobe_of p"
  "strobe_of (PORTA_update ga p) = strobe_of p"
  "strobe_of (PORTB_update gb p) = strobe_of p"
  "strobe_of (PORTC_update gc p) = strobe_of p"
  by (simp_all add: strobe_of_bits)

lemma view_store_quiet:
  "phase (view s) = Standby \<Longrightarrow> strobe_of (f (pins s)) = NoStrobe \<Longrightarrow>
     view (store f s) = view s"
  by (simp add: bus_view_append pins_change_def enter_def)

lemma view_store_begin_read:
  "phase (view s) = Standby \<Longrightarrow> strobe_of (f (pins s)) = ReadStrobe \<Longrightarrow>
     view (store f s) = (view s)\<lparr>phase := Reading (addr_bus (f (pins s))) 0\<rparr>"
  by (simp add: bus_view_append pins_change_def enter_def)

lemma view_store_end_read:
  "phase (view s) = Reading a t \<Longrightarrow> strobe_of (f (pins s)) = NoStrobe \<Longrightarrow>
     view (store f s) = \<lparr>phase = Standby, cycles = cycles (view s) @ [BusRead a t]\<rparr>"
  by (simp add: bus_view_append pins_change_def enter_def)

lemma captureOwnership_view:
  assumes bc: "between_commands (pins s)" and standby: "phase (view s) = Standby"
  shows "view (captureOwnership s) =
           (view s)\<lparr>cycles := cycles (view s) @ capture_glitch (pins s)\<rparr>"
    and "lines_idle (pins (captureOwnership s))"
proof -
  let ?f1 = "PORTD_update (\<lambda>v. v OR 32)"
  let ?f2 = "DDRD_update (\<lambda>v. v OR 4)"
  let ?f3 = "PORTD_update (\<lambda>v. v OR 28)"
  define s1 where "s1 = store ?f1 s"
  define s2 where "s2 = store ?f2 s1"
  define s3 where "s3 = store ?f3 s2"
  have p1: "pins s1 = ?f1 (pins s)" by (simp add: s1_def)
  have p2: "pins s2 = ?f2 (?f1 (pins s))" by (simp add: s2_def p1)
  have p3: "pins s3 = ?f3 (?f2 (?f1 (pins s)))" by (simp add: s3_def p2)
  have e1: "strobe_of (?f1 (pins s)) = NoStrobe"
    using bc unfolding between_commands_bits by (simp add: strobe_of_bits bit_simps)
  have v1: "view s1 = view s"
    unfolding s1_def using standby e1 by (rule view_store_quiet)
  have i3: "lines_idle (pins s3)"
    using bc unfolding between_commands_bits lines_idle_bits control_outputs_bits
    by (simp add: p3 bit_simps)
  have e3: "strobe_of (?f3 (pins s2)) = NoStrobe"
    using i3 lines_idle_NoStrobe by (simp add: p3 p2)
  have v3: "view s3 = (view s)\<lparr>cycles := cycles (view s) @ capture_glitch (pins s)\<rparr>"
  proof (cases "\<not> bit (PORTD (pins s)) 2 \<and> \<not> bit (PORTD (pins s)) 3")
    case True
    then have "strobe_of (?f2 (pins s1)) = ReadStrobe"
      using bc unfolding between_commands_bits by (simp add: p1 strobe_of_bits bit_simps)
    moreover have "phase (view s1) = Standby" using v1 standby by simp
    ultimately have "view s2 = (view s1)\<lparr>phase := Reading (addr_bus (?f2 (pins s1))) 0\<rparr>"
      unfolding s2_def by (intro view_store_begin_read)
    moreover have "addr_bus (?f2 (pins s1)) = addr_bus (pins s)"
      by (simp add: p1 addr_bus_def)
    ultimately have v2: "view s2 = (view s)\<lparr>phase := Reading (addr_bus (pins s)) 0\<rparr>"
      using v1 by simp
    then have "phase (view s2) = Reading (addr_bus (pins s)) 0" by simp
    then have "view s3 = \<lparr>phase = Standby, cycles = cycles (view s2) @ [BusRead (addr_bus (pins s)) 0]\<rparr>"
      unfolding s3_def using e3 by (rule view_store_end_read)
    then show ?thesis
      using True standby v2 by (simp add: capture_glitch_bits)
  next
    case False
    then have "strobe_of (?f2 (pins s1)) = NoStrobe"
      using bc unfolding between_commands_bits
      by (auto simp add: p1 strobe_of_bits bit_simps)
    moreover have "phase (view s1) = Standby" using v1 standby by simp
    ultimately have "view s2 = view s1"
      unfolding s2_def by (intro view_store_quiet)
    then have v2: "view s2 = view s" using v1 by simp
    then have "phase (view s2) = Standby" using standby by simp
    then have "view s3 = view s2"
      unfolding s3_def using e3 by (rule view_store_quiet)
    then show ?thesis
      using False v2 by (simp add: capture_glitch_bits)
  qed
  have s3': "phase (view s3) = Standby"
    using v3 standby by simp
  have eq: "captureOwnership s =
      steps [assign DDRA_update 0, assign DDRB_update 0, assign DDRC_update 0,
             assign PORTA_update 0, assign PORTB_update 0, assign PORTC_update 0] s3"
    by (simp add: captureOwnership_def s1_def s2_def s3_def stmt_defs mask_defs)
  show "view (captureOwnership s) =
          (view s)\<lparr>cycles := cycles (view s) @ capture_glitch (pins s)\<rparr>"
    unfolding eq using sequencer_exit(2) [OF i3 s3'] v3 by simp
  show "lines_idle (pins (captureOwnership s))"
    unfolding eq using i3 s3' by (rule sequencer_exit(1))
qed

lemma captureOwnership_pins:
  "DDRC (pins (captureOwnership s)) = 0"
  "bit (DDRD (pins (captureOwnership s))) 5 = bit (DDRD (pins s)) 5"
  by (simp_all add: captureOwnership_def stmt_defs mask_defs bit_simps)

lemma captureOwnership_world [simp]: "world (captureOwnership s) = world s"
  by (simp add: captureOwnership_def stmt_defs)

lemma releaseOwnership_view:
  assumes "lines_idle (pins s)" and "phase (view s) = Standby"
  shows "view (releaseOwnership s) = view s"
  using assms unfolding lines_idle_bits control_outputs_bits
  by (simp add: releaseOwnership_def stmt_defs mask_defs bus_view_append recorder_defs
      bit_simps)

lemma releaseOwnership_pins:
  assumes "lines_idle (pins s)"
  shows "between_commands (pins (releaseOwnership s))"
    and "bit (DDRD (pins s)) 5 \<Longrightarrow> external_master_owns_bus (pins (releaseOwnership s))"
  using assms
  unfolding lines_idle_bits control_outputs_bits between_commands_bits
    external_master_owns_bus_def driven_bits
  by (simp_all add: releaseOwnership_def stmt_defs mask_defs bit_simps and4)

lemma releaseOwnership_rx [simp]: "rx (releaseOwnership s) = rx s"
  by (simp add: releaseOwnership_def stmt_defs)

lemma writePage_rx [simp]: "rx (writePage a src s) = rx s"
proof -
  have "rx (fold (\<lambda>i. writeByte (f i) (g i)) xs t) = rx t" for f g xs and t :: board
    by (induction xs arbitrary: t) simp_all
  from this [of "\<lambda>i. a + of_nat i" "\<lambda>i. src ! i"] show ?thesis
    by (simp add: writePage_def stmt_defs)
qed

lemma writePage_ddrd:
  "DDRD (pins (writePage a src s)) = DDRD (pins s)"
  by (simp add: writePage_def stmt_defs fold_writeByte_pins)

lemma writePageHex_read_board:
  "writePageHex_read i buffer s = Some (buffer', s') \<Longrightarrow>
     length buffer' = length buffer \<and> pins s' = pins s \<and> events s' = events s \<and>
     world s' = world s"
proof (induction i buffer s rule: writePageHex_read.induct)
  case (1 i buffer s)
  show ?case
  proof (cases "i < PAGE_SIZE")
    case False
    with "1.prems" show ?thesis by (simp add: writePageHex_read.simps)
  next
    case True
    show ?thesis
    proof (cases "rx s")
      case Nil
      with True "1.prems" show ?thesis
        by (simp add: writePageHex_read.simps [of i buffer s] readSerial_def)
    next
      case (Cons h cs)
      note hs = Cons
      show ?thesis
      proof (cases "h = chr CHR ''*''")
        case True
        with \<open>i < PAGE_SIZE\<close> hs "1.prems" show ?thesis
          by (auto simp add: writePageHex_read.simps [of i buffer s] readSerial_def)
      next
        case False
        note h = False
        show ?thesis
        proof (cases cs)
          case Nil
          with \<open>i < PAGE_SIZE\<close> hs h "1.prems" show ?thesis
            by (simp add: writePageHex_read.simps [of i buffer s] readSerial_def)
        next
          case (Cons l cs')
          show ?thesis
          proof (cases "l = chr CHR ''*''")
            case True
            with \<open>i < PAGE_SIZE\<close> hs h Cons "1.prems" show ?thesis
              by (auto simp add: writePageHex_read.simps [of i buffer s] readSerial_def)
          next
            case False
            let ?s1 = "s\<lparr>rx := cs\<rparr>"
            let ?s2 = "s\<lparr>rx := cs'\<rparr>"
            have r1: "readSerial s = Some (h, ?s1)" using hs by (simp add: readSerial_def)
            have r2: "readSerial ?s1 = Some (l, ?s1\<lparr>rx := cs'\<rparr>)"
              using Cons by (simp add: readSerial_def)
            have "writePageHex_read (Suc i)
                    (buffer[i := push_bit 4 (ascToNibble h) OR ascToNibble l])
                    (?s1\<lparr>rx := cs'\<rparr>) = Some (buffer', s')"
              using \<open>i < PAGE_SIZE\<close> h False r1 r2 "1.prems"
              by (simp add: writePageHex_read.simps [of i buffer s])
            from "1.IH" [OF \<open>i < PAGE_SIZE\<close> r1 refl h r2 refl False this]
            show ?thesis by simp
          qed
        qed
      qed
    qed
  qed
qed

lemma read_cycles_Nil [simp]: "read_cycles [] = []"
  by (simp add: read_cycles_def)

lemma readByte_view:
  assumes "lines_idle (pins s)" and "phase (view s) = Standby"
  shows "view (snd (readByte a s)) =
           (view s)\<lparr>cycles := cycles (view s) @ read_cycles [a]\<rparr>"
  using assms unfolding lines_idle_bits control_outputs_bits
  by (simp add: readByte_def read_PINC_def Let_def stmt_defs mask_defs bus_view_append
      recorder_defs bit_simps addr_bus_def word_cat_split read_cycles_def)

lemma readByte_pins:
  assumes "lines_idle (pins s)"
  shows "lines_idle (pins (snd (readByte a s)))"
    and "DDRC (pins (snd (readByte a s))) = DDRC (pins s)"
    and "DDRD (pins (snd (readByte a s))) = DDRD (pins s)"
  using assms unfolding lines_idle_bits control_outputs_bits
  by (simp_all add: readByte_def read_PINC_def Let_def stmt_defs mask_defs bit_simps)

lemma readByte_rx_world [simp]:
  "rx (snd (readByte a s)) = rx s" "world (snd (readByte a s)) = world s"
  by (simp_all add: readByte_def read_PINC_def Let_def stmt_defs)

text \<open>
  The byte \<open>readByte\<close> returns is the level on port C at a moment when the chip has
  been strobed for reading at the address for ten microseconds.
\<close>

lemma readByte_value:
  assumes "lines_idle (pins s)" and "phase (view s) = Standby" and "DDRC (pins s) = 0"
  shows "\<exists>evs. fst (readByte a s) = world s evs \<and>
           bus_view evs = \<lparr>phase = Reading (Some a) 10, cycles = cycles (view s) @ [Gap 10]\<rparr>"
proof -
  define evs where "evs = events (steps
     [assign DDRA_update 0xff, assign DDRB_update 0xff,
      set_bits PORTD_update (FLASH_CE OR FLASH_OE OR FLASH_WE),
      assign PORTA_update (ucast a), assign PORTB_update (ucast (drop_bit 8 a)),
      delayMicroseconds 10, clear_bits PORTD_update (FLASH_CE OR FLASH_OE),
      delayMicroseconds 10] s)"
  have "fst (readByte a s) = world s evs"
    using assms(3) by (simp add: readByte_def read_PINC_def Let_def stmt_defs evs_def)
  moreover have "bus_view evs =
      \<lparr>phase = Reading (Some a) 10, cycles = cycles (view s) @ [Gap 10]\<rparr>"
    using assms(1,2) unfolding lines_idle_bits control_outputs_bits
    by (simp add: evs_def stmt_defs mask_defs bus_view_append recorder_defs bit_simps
        addr_bus_def word_cat_split)
  ultimately show ?thesis by blast
qed

lemma dumpPage_body_view:
  assumes "lines_idle (pins s)" and "phase (view s) = Standby"
  shows "view (snd (dumpPage_body page i (n, s))) =
           (view s)\<lparr>cycles := cycles (view s) @
              read_cycles [of_nat (unat page * PAGE_SIZE + i)]\<rparr>"
    and "lines_idle (pins (snd (dumpPage_body page i (n, s))))"
    and "DDRD (pins (snd (dumpPage_body page i (n, s)))) = DDRD (pins s)"
    and "rx (snd (dumpPage_body page i (n, s))) = rx s"
  using readByte_view [OF assms, of "of_nat (unat page * PAGE_SIZE + i)"]
    readByte_pins [OF assms(1), of "of_nat (unat page * PAGE_SIZE + i)"]
  by (simp_all add: dumpPage_body_def Let_def split_def bus_view_append)

lemma dumpPage_loop_view:
  assumes "lines_idle (pins s)" and "phase (view s) = Standby"
  shows "view (snd (fold (dumpPage_body page) xs (n, s))) =
           (view s)\<lparr>cycles := cycles (view s) @
              read_cycles (map (\<lambda>i. of_nat (unat page * PAGE_SIZE + i)) xs)\<rparr> \<and>
         lines_idle (pins (snd (fold (dumpPage_body page) xs (n, s)))) \<and>
         DDRD (pins (snd (fold (dumpPage_body page) xs (n, s)))) = DDRD (pins s) \<and>
         rx (snd (fold (dumpPage_body page) xs (n, s))) = rx s"
  using assms
proof (induction xs arbitrary: n s)
  case Nil
  then show ?case by simp
next
  case (Cons x xs)
  obtain n' s' where b: "dumpPage_body page x (n, s) = (n', s')"
    by (cases "dumpPage_body page x (n, s)")
  have v: "view s' = (view s)\<lparr>cycles := cycles (view s) @
              read_cycles [of_nat (unat page * PAGE_SIZE + x)]\<rparr>"
    and i: "lines_idle (pins s')" and d: "DDRD (pins s') = DDRD (pins s)"
    and r: "rx s' = rx s"
    using dumpPage_body_view [OF Cons.prems, of page x n] by (simp_all add: b)
  have st: "phase (view s') = Standby" using v Cons.prems(2) by simp
  from Cons.IH [OF i st, of n'] show ?case
    by (simp add: b v d r read_cycles_def)
qed

lemma dumpPage_view:
  assumes bc: "between_commands (pins s)" and standby: "phase (view s) = Standby"
  shows "view (dumpPage page s) =
           (view s)\<lparr>cycles := cycles (view s) @ capture_glitch (pins s) @
              read_cycles (map (\<lambda>i. of_nat (unat page * PAGE_SIZE + i)) [0..<PAGE_SIZE])\<rparr>"
    and "between_commands (pins (dumpPage page s))"
    and "bit (DDRD (pins s)) 5 \<Longrightarrow> external_master_owns_bus (pins (dumpPage page s))"
    and "rx (dumpPage page s) = rx s"
proof -
  define s1 where "s1 = steps [captureOwnership, serialPrint ''Reading page '',
                               serialPrintln (decimal (unat page))] s"
  define s2 where "s2 = snd (fold (dumpPage_body page) [0..<PAGE_SIZE] (0, s1))"
  define s3 where "s3 = serialPrintln '' '' s2"
  have s1: "view s1 = (view s)\<lparr>cycles := cycles (view s) @ capture_glitch (pins s)\<rparr>"
    "lines_idle (pins s1)" "rx s1 = rx s"
    "bit (DDRD (pins s1)) 5 = bit (DDRD (pins s)) 5"
    using captureOwnership_view [OF bc standby] captureOwnership_pins(2) [of s]
    by (simp_all add: s1_def bus_view_append)
  have st1: "phase (view s1) = Standby" using s1(1) standby by simp
  have s2: "view s2 = (view s1)\<lparr>cycles := cycles (view s1) @
              read_cycles (map (\<lambda>i. of_nat (unat page * PAGE_SIZE + i)) [0..<PAGE_SIZE])\<rparr>"
    "lines_idle (pins s2)" "DDRD (pins s2) = DDRD (pins s1)" "rx s2 = rx s1"
    unfolding s2_def using dumpPage_loop_view [OF s1(2) st1, of page "[0..<PAGE_SIZE]" 0]
    by simp_all
  have s3: "view s3 = view s2" "lines_idle (pins s3)" "DDRD (pins s3) = DDRD (pins s1)"
    "rx s3 = rx s"
    using s2 s1(3) by (simp_all add: s3_def bus_view_append)
  have st3: "phase (view s3) = Standby" using s3(1) s2(1) st1 by simp
  have eq: "dumpPage page s = releaseOwnership s3"
    by (simp add: dumpPage_def s1_def s2_def s3_def)
  show "view (dumpPage page s) =
           (view s)\<lparr>cycles := cycles (view s) @ capture_glitch (pins s) @
              read_cycles (map (\<lambda>i. of_nat (unat page * PAGE_SIZE + i)) [0..<PAGE_SIZE])\<rparr>"
    unfolding eq using releaseOwnership_view [OF s3(2) st3] s3(1) s2(1) s1(1) by simp
  show "between_commands (pins (dumpPage page s))"
    unfolding eq using s3(2) by (rule releaseOwnership_pins(1))
  show "bit (DDRD (pins s)) 5 \<Longrightarrow> external_master_owns_bus (pins (dumpPage page s))"
    unfolding eq using releaseOwnership_pins(2) [OF s3(2)] s3(3) s1(4) by simp
  show "rx (dumpPage page s) = rx s"
    unfolding eq using s3(4) by simp
qed

lemma writePageHex_view:
  assumes bc: "between_commands (pins s)" and standby: "phase (view s) = Standby"
    and rd: "writePageHex_read 0 (replicate PAGE_SIZE 0) (captureOwnership s) = Some (buffer, s1)"
  shows "\<exists>s'. writePageHex page s = Some s' \<and>
           view s' = (view s)\<lparr>cycles := cycles (view s) @ capture_glitch (pins s) @
              write_cycles ([(0x5555, 0xAA), (0x2AAA, 0x55), (0x5555, 0xA0)] @
                            zip (page_addresses (of_nat (unat page * PAGE_SIZE))) buffer) @
              [Gap 10000]\<rparr> \<and>
           between_commands (pins s') \<and>
           (bit (DDRD (pins s)) 5 \<longrightarrow> external_master_owns_bus (pins s')) \<and>
           rx s' = rx s1"
proof -
  from writePageHex_read_board [OF rd]
  have b: "length buffer = PAGE_SIZE" "pins s1 = pins (captureOwnership s)"
    "events s1 = events (captureOwnership s)"
    by simp_all
  define s2 where "s2 = steps [serialPrint ''Writing page '',
                               serialPrintln (decimal (unat page))] s1"
  define s3 where "s3 = writePage (of_nat (unat page * PAGE_SIZE)) buffer s2"
  have s2: "view s2 = (view s)\<lparr>cycles := cycles (view s) @ capture_glitch (pins s)\<rparr>"
    "lines_idle (pins s2)" "rx s2 = rx s1"
    "bit (DDRD (pins s2)) 5 = bit (DDRD (pins s)) 5"
    using captureOwnership_view [OF bc standby] captureOwnership_pins(2) [of s]
    by (simp_all add: s2_def bus_view_append b)
  have st2: "phase (view s2) = Standby" using s2(1) standby by simp
  have s3: "view s3 = (view s2)\<lparr>cycles := cycles (view s2) @
              write_cycles ([(0x5555, 0xAA), (0x2AAA, 0x55), (0x5555, 0xA0)] @
                            zip (page_addresses (of_nat (unat page * PAGE_SIZE))) buffer) @
              [Gap 10000]\<rparr>"
    "lines_idle (pins s3)"
    unfolding s3_def using s2(2) st2 b(1) by (rule writePage_view)+
  have s3': "DDRD (pins s3) = DDRD (pins s2)" "rx s3 = rx s1"
    by (simp_all add: s3_def writePage_ddrd s2(3))
  have st3: "phase (view s3) = Standby" using s3(1) st2 by simp
  have eq: "writePageHex page s = Some (releaseOwnership s3)"
    by (simp add: writePageHex_def rd s2_def s3_def)
  show ?thesis
    unfolding eq
    using releaseOwnership_view [OF s3(2) st3] releaseOwnership_pins [OF s3(2)]
      s3(1) s2(1) s3' s2(4)
    by simp
qed



lemma loop_e:
  "rx s = chr CHR ''e'' # cs \<Longrightarrow>
     loop s = Some (chipErase (serialPrintln (''Ready'' @ [CHR 0x0A]) (s\<lparr>rx := cs\<rparr>)))"
  by (simp add: loop_def readSerial_def Let_def chr_def)


lemma page_addresses_of_page:
  "page_addresses (of_nat (unat (page :: byte) * PAGE_SIZE)) =
     map (\<lambda>i. of_nat (unat page * PAGE_SIZE + i)) [0..<PAGE_SIZE]"
  by (simp add: page_addresses_def)




lemma started_board:
  "between_commands (pins (started input))"
  "phase (view (started input)) = Standby"
  "rx (started input) = input"
  "bit (DDRD (pins (started input))) 5"
  unfolding between_commands_bits
  by (simp_all add: started_def setup_fn_def power_on_def reset_ports_def stmt_defs mask_defs
      bus_view_def recorder_defs)


section \<open>The erase command and the ownership of the bus\<close>

text \<open>
  The page commands give the bus back: entered between two commands on a board
  whose buffer enable pin is an output, \<open>writePageHex\<close> (when it returns) and
  \<open>dumpPage\<close> end with the external master owning the bus.
\<close>

lemma page_commands_release:
  assumes "between_commands (pins s)" and "phase (view s) = Standby"
    and "bit (DDRD (pins s)) 5"
  shows "writePageHex page s = Some s' \<Longrightarrow> external_master_owns_bus (pins s')"
    and "external_master_owns_bus (pins (dumpPage page s))"
proof -
  show "external_master_owns_bus (pins (dumpPage page s))"
    using dumpPage_view(3) [OF assms(1,2)] assms(3) by simp
  assume w: "writePageHex page s = Some s'"
  then obtain buffer s1 where
    "writePageHex_read 0 (replicate PAGE_SIZE 0) (captureOwnership s) = Some (buffer, s1)"
    by (auto simp add: writePageHex_def split: option.splits)
  from writePageHex_view [OF assms(1,2) this, of page] w assms(3)
  show "external_master_owns_bus (pins s')" by auto
qed

text \<open>
  C1 fails for the erase command. \<open>loop\<close> calls \<open>chipErase\<close> directly, and
  \<open>chipErase\<close> calls neither \<open>captureOwnership\<close> nor \<open>releaseOwnership\<close>. As the
  first command after start-up, \<open>e\<close> returns with the controller still owning the
  bus. After an earlier release, \<open>e\<close> runs its six \<open>writeByte\<close> calls with chip
  enable an input, so that no write cycle reaches the chip, and it returns with
  output enable held high and the pull-up on chip enable switched on, which is not
  the state \<open>releaseOwnership\<close> leaves.
\<close>

theorem erase_command_without_ownership:
  "(\<exists>s'. loop (started (map chr ''e'')) = Some s' \<and> rx s' = [] \<and>
      controller_owns_bus (pins s') \<and> \<not> external_master_owns_bus (pins s')) \<and>
   external_master_owns_bus (pins ((releaseOwnership captured_board)\<lparr>rx := map chr ''e''\<rparr>)) \<and>
   (\<exists>s'. loop ((releaseOwnership captured_board)\<lparr>rx := map chr ''e''\<rparr>) = Some s' \<and>
      rx s' = [] \<and>
      writes_of (cycles (view s')) = [] \<and>
      driven_high FLASH_OE (pins s') \<and> \<not> external_master_owns_bus (pins s'))"
proof (intro conjI)
  let ?s = "chipErase (serialPrintln (''Ready'' @ [CHR 0x0A]) ((started (map chr ''e''))\<lparr>rx := []\<rparr>))"
  have l: "loop (started (map chr ''e'')) = Some ?s"
    by (rule loop_e) (simp add: started_board)
  have e: "pins ?s =
      \<lparr>DDRA = 0, DDRB = 0, DDRC = 0, DDRD = 0x3C, PORTA = 0, PORTB = 0, PORTC = 0,
       PORTD = 0x3C\<rparr>"
    by (simp add: chipErase_def writeByte_def started_def setup_fn_def power_on_def
        reset_ports_def stmt_defs mask_defs)
  have r: "rx ?s = []"
    by (simp add: chipErase_def stmt_defs)
  show "\<exists>s'. loop (started (map chr ''e'')) = Some s' \<and> rx s' = [] \<and>
      controller_owns_bus (pins s') \<and> \<not> external_master_owns_bus (pins s')"
    using l e r
    by (simp add: controller_owns_bus_def external_master_owns_bus_def driven_high_def
        driven_low_def mask_defs)
next
  show "external_master_owns_bus (pins ((releaseOwnership captured_board)\<lparr>rx := map chr ''e''\<rparr>))"
    by (simp add: releaseOwnership_def captured_board_pins stmt_defs mask_defs
        external_master_owns_bus_def driven_low_def)
next
  let ?r = "(releaseOwnership captured_board)\<lparr>rx := map chr ''e''\<rparr>"
  let ?s = "chipErase (serialPrintln (''Ready'' @ [CHR 0x0A]) (?r\<lparr>rx := []\<rparr>))"
  have l: "loop ?r = Some ?s"
    by (rule loop_e) simp
  have p: "pins (releaseOwnership captured_board) =
             \<lparr>DDRA = 0, DDRB = 0, DDRC = 0, DDRD = 0x38, PORTA = 0, PORTB = 0,
              PORTC = 0, PORTD = 0x10\<rparr>"
    by (simp add: releaseOwnership_def captured_board_pins stmt_defs mask_defs)
  have v: "view ?r = \<lparr>phase = Standby, cycles = []\<rparr>"
    using releaseOwnership_view [OF captured_board_idle] captured_board_view
    by (simp add: bus_view_append)
  have e: "pins ?s = \<lparr>DDRA = 0, DDRB = 0, DDRC = 0, DDRD = 0x38, PORTA = 0, PORTB = 0,
                       PORTC = 0, PORTD = 0x1C\<rparr>"
    by (simp add: chipErase_def writeByte_def stmt_defs mask_defs p)
  have w: "writes_of (cycles (view ?s)) = []"
    using v
    by (simp add: chipErase_def writeByte_def stmt_defs mask_defs p bus_view_append
        recorder_defs)
  have r: "rx ?s = []"
    by (simp add: chipErase_def stmt_defs)
  show "\<exists>s'. loop ?r = Some s' \<and> rx s' = [] \<and> writes_of (cycles (view s')) = [] \<and>
      driven_high FLASH_OE (pins s') \<and> \<not> external_master_owns_bus (pins s')"
    using l e w r
    by (simp add: external_master_owns_bus_def driven_high_def driven_low_def mask_defs)
qed

section \<open>Writing a page and reading it back\<close>

lemma flash_unlock:
  assumes "mode f = Ready"
  shows "foldl flash_cycle f (write_cycles [(0x5555, 0xAA), (0x2AAA, 0x55), (0x5555, 0xA0)]) =
           f\<lparr>mode := Loading [] 1\<rparr>"
  using assms by (simp add: write_cycles_def)

lemma flash_load:
  assumes "t \<le> 200"
  shows "foldl flash_cycle (f\<lparr>mode := Loading ws t\<rparr>) (write_cycles xs) =
           f\<lparr>mode := Loading (ws @ xs) (if xs = [] then t else 1)\<rparr>"
  using assms
proof (induction xs arbitrary: ws t)
  case Nil
  then show ?case by simp
next
  case (Cons x xs)
  obtain a d where x: "x = (a, d)" by (cases x)
  have "foldl flash_cycle (f\<lparr>mode := Loading ws t\<rparr>) (write_cycles (x # xs)) =
          foldl flash_cycle (f\<lparr>mode := Loading (ws @ [(a, d)]) 1\<rparr>) (write_cycles xs)"
    using Cons.prems by (simp add: x write_cycles_Cons)
  also have "\<dots> = f\<lparr>mode := Loading ((ws @ [(a, d)]) @ xs) (if xs = [] then 1 else 1)\<rparr>"
    by (rule Cons.IH) simp
  finally show ?case by (simp add: x)
qed

lemma flash_page:
  assumes "mode f = Ready"
  shows "foldl flash_cycle f
           (write_cycles ([(0x5555, 0xAA), (0x2AAA, 0x55), (0x5555, 0xA0)] @ ws) @ [Gap 10000]) =
         \<lparr>cells = program ws (cells f), mode = Ready\<rparr>"
proof -
  have "foldl flash_cycle f
           (write_cycles ([(0x5555, 0xAA), (0x2AAA, 0x55), (0x5555, 0xA0)] @ ws) @ [Gap 10000]) =
        flash_cycle (foldl flash_cycle (f\<lparr>mode := Loading [] 1\<rparr>) (write_cycles ws)) (Gap 10000)"
    by (simp only: write_cycles_append foldl_append flash_unlock [OF assms]) simp
  also have "\<dots> = flash_cycle (f\<lparr>mode := Loading ws 1\<rparr>) (Gap 10000)"
    by (simp add: flash_load)
  finally show ?thesis by simp
qed

lemma program_other: "a \<notin> fst ` set ws \<Longrightarrow> program ws m a = m a"
  by (induction ws arbitrary: m) (auto simp add: program_def)

lemma program_lookup:
  "distinct (map fst ws) \<Longrightarrow> (a, d) \<in> set ws \<Longrightarrow> program ws m a = d"
proof (induction ws arbitrary: m)
  case Nil
  then show ?case by simp
next
  case (Cons w ws)
  obtain a' d' where w: "w = (a', d')" by (cases w)
  show ?case
  proof (cases "(a, d) = w")
    case True
    with Cons.prems w have "a \<notin> fst ` set ws" by auto
    then have "program ws (m(a' := d')) a = (m(a' := d')) a" by (rule program_other)
    with True w show ?thesis by (simp add: program_def)
  next
    case False
    with Cons.prems have "(a, d) \<in> set ws" "distinct (map fst ws)" by auto
    from Cons.IH [OF this(2,1)] w show ?thesis by (simp add: program_def)
  qed
qed

lemma distinct_page_addresses: "distinct (page_addresses base)"
proof -
  have "inj_on (\<lambda>i. base + (of_nat i :: uint16)) {0..<PAGE_SIZE}"
  proof (rule inj_onI)
    fix i j
    assume i: "i \<in> {0..<PAGE_SIZE}" and j: "j \<in> {0..<PAGE_SIZE}"
      and "base + (of_nat i :: uint16) = base + of_nat j"
    then have "unat (of_nat i :: uint16) = unat (of_nat j :: uint16)" by simp
    moreover have "i < 2 ^ LENGTH(16)" "j < 2 ^ LENGTH(16)"
      using i j by (simp_all add: PAGE_SIZE_def)
    ultimately show "i = j" by (simp only: unat_of_nat mod_less)
  qed
  then show ?thesis by (simp add: page_addresses_def distinct_map)
qed

lemma program_page:
  assumes "length src = PAGE_SIZE"
  shows "map (program (zip (page_addresses base) src) m) (page_addresses base) = src"
proof (rule nth_equalityI)
  show "length (map (program (zip (page_addresses base) src) m) (page_addresses base)) =
          length src"
    using assms by (simp add: page_addresses_def)
next
  fix i
  assume "i < length (map (program (zip (page_addresses base) src) m) (page_addresses base))"
  then have i: "i < PAGE_SIZE" by (simp add: page_addresses_def)
  have l: "length (page_addresses base) = PAGE_SIZE" by (simp add: page_addresses_def)
  have "distinct (map fst (zip (page_addresses base) src))"
    using assms l distinct_page_addresses [of base] by simp
  moreover have "(page_addresses base ! i, src ! i) \<in> set (zip (page_addresses base) src)"
    using i assms l by (auto simp add: set_zip)
  ultimately have "program (zip (page_addresses base) src) m (page_addresses base ! i) = src ! i"
    by (rule program_lookup)
  then show "map (program (zip (page_addresses base) src) m) (page_addresses base) ! i = src ! i"
    using i l by simp
qed

lemma writePage_world [simp]: "world (writePage a src s) = world s"
proof -
  have "world (fold (\<lambda>i. writeByte (f i) (g i)) xs t) = world t" for f g xs and t :: board
    by (induction xs arbitrary: t) simp_all
  from this [of "\<lambda>i. a + of_nat i" "\<lambda>i. src ! i"] show ?thesis
    by (simp add: writePage_def stmt_defs)
qed

lemma writePage_ddrc: "DDRC (pins (writePage a src s)) = 0"
  by (simp add: writePage_def stmt_defs)

text \<open>
  The board and the chip in step: no cycle in progress, the data pins inputs, the
  chip ready in state \<open>f\<close> after all the board has done, and the chip on port C.
\<close>

lemma readByte_flash:
  assumes idle: "lines_idle (pins s)" and standby: "phase (view s) = Standby"
    and ddrc: "DDRC (pins s) = 0"
    and w: "world s = flash_world f0 float"
    and f: "flash_after f0 (events s) = f" and ready: "mode f = Ready"
  shows "fst (readByte a s) = cells f a"
    and "flash_after f0 (events (snd (readByte a s))) = f"
proof -
  from readByte_value [OF idle standby ddrc, of a] obtain evs where
    v: "fst (readByte a s) = world s evs"
    and b: "bus_view evs = \<lparr>phase = Reading (Some a) 10, cycles = cycles (view s) @ [Gap 10]\<rparr>"
    by blast
  have "flash_after f0 evs = flash_cycle f (Gap 10)"
    using f by (simp add: flash_after_def b)
  also have "\<dots> = f" using ready by simp
  finally have "flash_world f0 float evs = cells f a"
    using ready by (simp add: flash_world_def b)
  then show "fst (readByte a s) = cells f a"
    using v w by simp
  have "flash_after f0 (events (snd (readByte a s))) =
          flash_cycle (flash_cycle f (Gap 10)) (BusRead (Some a) 10)"
    using f by (simp add: flash_after_def readByte_view [OF idle standby] read_cycles_def)
  then show "flash_after f0 (events (snd (readByte a s))) = f"
    using ready by simp
qed

lemma readBytes_flash:
  assumes "lines_idle (pins s)" and "phase (view s) = Standby" and "DDRC (pins s) = 0"
    and "world s = flash_world f0 float"
    and "flash_after f0 (events s) = f" and "mode f = Ready"
  shows "fst (readBytes as s) = map (cells f) as"
  using assms
proof (induction as arbitrary: s)
  case Nil
  then show ?case by simp
next
  case (Cons a as)
  let ?s = "snd (readByte a s)"
  have 1: "lines_idle (pins ?s)" and 3: "DDRC (pins ?s) = 0"
    using readByte_pins [OF Cons.prems(1), of a] Cons.prems(3) by simp_all
  have 2: "phase (view ?s) = Standby"
    using readByte_view [OF Cons.prems(1,2), of a] Cons.prems(2) by simp
  have 4: "world ?s = flash_world f0 float"
    using Cons.prems(4) by simp
  have 5: "flash_after f0 (events ?s) = f"
    using Cons.prems by (rule readByte_flash(2))
  have v: "fst (readByte a s) = cells f a"
    using Cons.prems by (rule readByte_flash(1))
  from Cons.IH [OF 1 2 3 4 5 Cons.prems(6)] v show ?case
    by (simp add: split_def Let_def)
qed

text \<open>
  C9. With the flash model on port C, ready and in step with the board, and the
  control lines idle: for every base address and every 128 bytes, \<open>writePage\<close>
  followed by \<open>readByte\<close> at \<open>base + 0\<close>, ..., \<open>base + 127\<close> returns the bytes
  written.
\<close>

theorem page_roundtrip:
  assumes "lines_idle (pins s)" and "phase (view s) = Standby"
    and "world s = flash_world f0 float" and "mode (flash_after f0 (events s)) = Ready"
    and "length src = PAGE_SIZE"
  shows "fst (readBytes (map (\<lambda>i. base + of_nat i) [0..<128]) (writePage base src s)) = src"
proof -
  let ?s = "writePage base src s"
  let ?f = "flash_after f0 (events s)"
  let ?f' = "\<lparr>cells = program (zip (page_addresses base) src) (cells ?f), mode = Ready\<rparr>"
  have 1: "lines_idle (pins ?s)"
    using assms(1,2,5) by (rule writePage_view(2))
  have v: "view ?s = (view s)\<lparr>cycles := cycles (view s) @
              write_cycles ([(0x5555, 0xAA), (0x2AAA, 0x55), (0x5555, 0xA0)] @
                            zip (page_addresses base) src) @
              [Gap 10000]\<rparr>"
    using assms(1,2,5) by (rule writePage_view(1))
  have 2: "phase (view ?s) = Standby" using v assms(2) by simp
  have 3: "DDRC (pins ?s) = 0" by (rule writePage_ddrc)
  have 4: "world ?s = flash_world f0 float" using assms(3) by simp
  have 5: "flash_after f0 (events ?s) = ?f'"
    using flash_page [OF assms(4), of "zip (page_addresses base) src"]
    by (simp add: flash_after_def v)
  have "fst (readBytes (page_addresses base) ?s) = map (cells ?f') (page_addresses base)"
    using 1 2 3 4 5 by (rule readBytes_flash) simp
  also have "\<dots> = src"
    using program_page [OF assms(5)] by simp
  finally show ?thesis
    by (simp add: page_addresses_def PAGE_SIZE_def)
qed

theorem page_roundtrip_witness:
  "lines_idle (pins (captured_board\<lparr>world := flash_world blank_flash 0xff\<rparr>)) \<and>
   phase (view (captured_board\<lparr>world := flash_world blank_flash 0xff\<rparr>)) = Standby \<and>
   world (captured_board\<lparr>world := flash_world blank_flash 0xff\<rparr>) =
     flash_world blank_flash 0xff \<and>
   mode (flash_after blank_flash
           (events (captured_board\<lparr>world := flash_world blank_flash 0xff\<rparr>))) = Ready \<and>
   length (map of_nat [0..<128] :: byte list) = PAGE_SIZE \<and>
   fst (readBytes (map (\<lambda>i. 0x0180 + of_nat i) [0..<128])
         (writePage 0x0180 (map of_nat [0..<128])
            (captured_board\<lparr>world := flash_world blank_flash 0xff\<rparr>))) =
     map of_nat [0..<128]"
proof -
  let ?s = "captured_board\<lparr>world := flash_world blank_flash 0xff\<rparr>"
  have 1: "lines_idle (pins ?s)" using captured_board_idle by simp
  have 2: "phase (view ?s) = Standby" by (simp add: captured_board_view)
  have 3: "world ?s = flash_world blank_flash 0xff" by simp
  have 4: "mode (flash_after blank_flash (events ?s)) = Ready"
    by (simp add: flash_after_def captured_board_view blank_flash_def)
  have 5: "length (map of_nat [0..<128] :: byte list) = PAGE_SIZE"
    by (simp add: PAGE_SIZE_def)
  from page_roundtrip [OF 1 2 3 4 5, of "0x0180"] 1 2 3 4 5 show ?thesis
    by simp
qed

section \<open>A short page on the bus\<close>

lemma byte_cases_22:
  fixes c :: byte
  assumes "unat c \<in> {48..57} \<union> {65..70} \<union> {97..102}"
  shows "c \<in> {48, 49, 50, 51, 52, 53, 54, 55, 56, 57, 65, 66, 67, 68, 69, 70,
               97, 98, 99, 100, 101, 102}"
proof -
  from assms have "unat c \<in> {48, 49, 50, 51, 52, 53, 54, 55, 56, 57, 65, 66, 67, 68, 69, 70,
               97, 98, 99, 100, 101, 102}"
    by (simp only: Un_iff atLeastAtMost_iff insert_iff empty_iff) arith
  then have "of_nat (unat c) \<in> (of_nat ` {48, 49, 50, 51, 52, 53, 54, 55, 56, 57, 65, 66, 67, 68,
               69, 70, 97, 98, 99, 100, 101, 102} :: byte set)"
    by (rule imageI)
  then show ?thesis by simp
qed

lemma ascToNibble_spec: "ascToNibble c = of_nat (spec_hex_digit c)"
proof (cases "unat c \<in> {48..57} \<union> {65..70} \<union> {97..102}")
  case True
  then have "c \<in> {48, 49, 50, 51, 52, 53, 54, 55, 56, 57, 65, 66, 67, 68, 69, 70,
               97, 98, 99, 100, 101, 102}"
    by (rule byte_cases_22)
  then show ?thesis
    by (auto simp add: ascToNibble_def spec_hex_digit_def chr_def)
next
  case False
  then have ne: "c \<notin> {48, 49, 50, 51, 52, 53, 54, 55, 56, 57, 65, 66, 67, 68, 69, 70,
               97, 98, 99, 100, 101, 102}"
    by auto
  from False have "ascToNibble c = 0"
    by (auto simp add: ascToNibble_def chr_def word_le_nat_alt)
  moreover from ne have "spec_hex_digit c = 0"
    by (simp add: spec_hex_digit_def chr_def)
  ultimately show ?thesis by simp
qed

lemma spec_hex_digit_less: "spec_hex_digit c < 16"
proof (cases "unat c \<in> {48..57} \<union> {65..70} \<union> {97..102}")
  case True
  then have "c \<in> {48, 49, 50, 51, 52, 53, 54, 55, 56, 57, 65, 66, 67, 68, 69, 70,
               97, 98, 99, 100, 101, 102}"
    by (rule byte_cases_22)
  then show ?thesis
    by (auto simp add: spec_hex_digit_def chr_def)
next
  case False
  then have "c \<notin> {48, 49, 50, 51, 52, 53, 54, 55, 56, 57, 65, 66, 67, 68, 69, 70,
               97, 98, 99, 100, 101, 102}"
    by auto
  then show ?thesis by (simp add: spec_hex_digit_def chr_def)
qed

lemma nibbles_byte:
  assumes "n < 16" and "m < 16"
  shows "push_bit 4 (of_nat n :: byte) OR of_nat m = of_nat (16 * n + m)"
proof -
  have "\<not> bit (push_bit 4 (of_nat n :: byte)) k \<or> \<not> bit (of_nat m :: byte) k" for k
  proof (cases "k < 4")
    case True
    then show ?thesis by (simp add: bit_simps)
  next
    case False
    then have "(2 :: nat) ^ 4 \<le> 2 ^ k"
      by (intro power_increasing) simp_all
    with assms(2) have "m < 2 ^ k" by simp
    then have "\<not> bit m k" by (simp add: bit_iff_odd)
    then show ?thesis by (simp add: bit_simps)
  qed
  then have "push_bit 4 (of_nat n :: byte) + of_nat m = push_bit 4 (of_nat n) OR of_nat m"
    by (rule disjunctive_add)
  then show ?thesis by (simp add: push_bit_eq_mult mult.commute)
qed

lemma decode_pairs_spec: "decode_pairs ps = map spec_hex_byte ps"
  by (simp add: decode_pairs_def spec_hex_byte_def ascToNibble_spec nibbles_byte
      spec_hex_digit_less split_def)

text \<open>
  C7. Between two commands, for every serial input that has the sentinel after
  fewer than 128 hex pairs, \<open>writePageHex\<close> returns, and the page buffer it fills
  and passes to \<open>writePage\<close> holds the bytes the pairs before the sentinel stand
  for, in order, followed by zero bytes up to the page size of 128. The whole
  buffer reaches the chip: after the unlock writes the recorder shows the 128
  write cycles of these bytes at the addresses of the page, then the 10 ms gap.
  The input is consumed up to and including the sentinel.
\<close>

theorem short_input_zero_padded:
  assumes "between_commands (pins s)" and "phase (view s) = Standby"
    and "chr CHR ''*'' \<in> set (rx s)"
    and "length (pairs_of (before_sentinel (rx s))) < PAGE_SIZE"
  shows "\<exists>buffer s'.
     buffer = map spec_hex_byte (pairs_of (before_sentinel (rx s))) @
              replicate (PAGE_SIZE - length (pairs_of (before_sentinel (rx s)))) 0 \<and>
     length buffer = PAGE_SIZE \<and>
     writePageHex_read 0 (replicate PAGE_SIZE 0) (captureOwnership s) =
       Some (buffer, (captureOwnership s)\<lparr>rx := after_sentinel (rx s)\<rparr>) \<and>
     writePageHex page s = Some s' \<and>
     rx s' = after_sentinel (rx s) \<and>
     cycles (view s') =
       cycles (view s) @ capture_glitch (pins s) @
       write_cycles ([(0x5555, 0xAA), (0x2AAA, 0x55), (0x5555, 0xA0)] @
         zip (map (\<lambda>i. of_nat (unat page * 128 + i)) [0..<128]) buffer) @
       [Gap 10000]"
proof -
  let ?ps = "pairs_of (before_sentinel (rx s))"
  let ?buf = "map spec_hex_byte ?ps @ replicate (PAGE_SIZE - length ?ps) 0"
  let ?s1 = "(captureOwnership s)\<lparr>rx := after_sentinel (rx s)\<rparr>"
  have short: "length (before_sentinel (rx (captureOwnership s))) < 2 * PAGE_SIZE"
    using assms(4) by (simp add: length_pairs_of)
  have star: "chr CHR ''*'' \<in> set (rx (captureOwnership s))"
    using assms(3) by simp
  have rd: "writePageHex_read 0 (replicate PAGE_SIZE 0) (captureOwnership s) = Some (?buf, ?s1)"
    using read_stream [OF star short]
    by (simp add: decode_pairs_spec length_pairs_of)
  from writePageHex_view [OF assms(1,2) rd, of page] obtain s' where
    s': "writePageHex page s = Some s'" "rx s' = rx ?s1"
    "view s' = (view s)\<lparr>cycles := cycles (view s) @ capture_glitch (pins s) @
              write_cycles ([(0x5555, 0xAA), (0x2AAA, 0x55), (0x5555, 0xA0)] @
                            zip (page_addresses (of_nat (unat page * PAGE_SIZE))) ?buf) @
              [Gap 10000]\<rparr>"
    by auto
  have "cycles (view s') =
       cycles (view s) @ capture_glitch (pins s) @
       write_cycles ([(0x5555, 0xAA), (0x2AAA, 0x55), (0x5555, 0xA0)] @
         zip (map (\<lambda>i. of_nat (unat page * 128 + i)) [0..<128]) ?buf) @
       [Gap 10000]"
    using s'(3) by (simp only: page_addresses_of_page) (simp add: PAGE_SIZE_def)
  moreover have "length ?buf = PAGE_SIZE"
    using assms(4) by simp
  moreover have "rx s' = after_sentinel (rx s)"
    using s'(2) by simp
  ultimately show ?thesis
    using rd s'(1) by blast
qed

theorem short_input_zero_padded_witness:
  "between_commands (pins (started (map chr ''DEADBEEF*''))) \<and>
   phase (view (started (map chr ''DEADBEEF*''))) = Standby \<and>
   chr CHR ''*'' \<in> set (rx (started (map chr ''DEADBEEF*''))) \<and>
   length (pairs_of (before_sentinel (rx (started (map chr ''DEADBEEF*''))))) < PAGE_SIZE \<and>
   map spec_hex_byte (pairs_of (before_sentinel (rx (started (map chr ''DEADBEEF*''))))) =
     [0xDE, 0xAD, 0xBE, 0xEF] \<and>
   after_sentinel (rx (started (map chr ''DEADBEEF*''))) = [] \<and>
   (\<exists>buffer s'.
     buffer = [0xDE, 0xAD, 0xBE, 0xEF] @ replicate 124 0 \<and>
     length buffer = PAGE_SIZE \<and>
     writePageHex_read 0 (replicate PAGE_SIZE 0)
         (captureOwnership (started (map chr ''DEADBEEF*''))) =
       Some (buffer, (captureOwnership (started (map chr ''DEADBEEF*'')))\<lparr>rx := []\<rparr>) \<and>
     writePageHex 3 (started (map chr ''DEADBEEF*'')) = Some s' \<and>
     rx s' = [] \<and>
     cycles (view s') =
       cycles (view (started (map chr ''DEADBEEF*''))) @
       capture_glitch (pins (started (map chr ''DEADBEEF*''))) @
       write_cycles ([(0x5555, 0xAA), (0x2AAA, 0x55), (0x5555, 0xA0)] @
         zip (map (\<lambda>i. of_nat (unat (3 :: byte) * 128 + i)) [0..<128]) buffer) @
       [Gap 10000])"
proof -
  let ?s = "started (map chr ''DEADBEEF*'')"
  have 3: "chr CHR ''*'' \<in> set (rx ?s)"
    by (simp add: started_board)
  have b: "before_sentinel (rx ?s) = map chr ''DEADBEEF''"
    by (simp add: started_board before_sentinel_def chr_def)
  have a: "after_sentinel (rx ?s) = []"
    by (simp add: started_board after_sentinel_def chr_def)
  have 4: "length (pairs_of (before_sentinel (rx ?s))) < PAGE_SIZE"
    by (simp only: b) (simp add: PAGE_SIZE_def)
  have v: "map spec_hex_byte (pairs_of (before_sentinel (rx ?s))) = [0xDE, 0xAD, 0xBE, 0xEF]"
    by (simp only: b) (simp add: spec_hex_byte_def spec_hex_digit_def chr_def)
  have n: "PAGE_SIZE - length (pairs_of (before_sentinel (rx ?s))) = 124"
    by (simp only: b) (simp add: PAGE_SIZE_def)
  from short_input_zero_padded [OF started_board(1,2) 3 4, of 3]
  have "\<exists>buffer s'.
     buffer = [0xDE, 0xAD, 0xBE, 0xEF] @ replicate 124 0 \<and>
     length buffer = PAGE_SIZE \<and>
     writePageHex_read 0 (replicate PAGE_SIZE 0) (captureOwnership ?s) =
       Some (buffer, (captureOwnership ?s)\<lparr>rx := []\<rparr>) \<and>
     writePageHex 3 ?s = Some s' \<and>
     rx s' = [] \<and>
     cycles (view s') =
       cycles (view ?s) @ capture_glitch (pins ?s) @
       write_cycles ([(0x5555, 0xAA), (0x2AAA, 0x55), (0x5555, 0xA0)] @
         zip (map (\<lambda>i. of_nat (unat (3 :: byte) * 128 + i)) [0..<128]) buffer) @
       [Gap 10000]"
    by (simp only: v a n)
  with started_board(1,2) [of "map chr ''DEADBEEF*''"] 3 4 v a show ?thesis
    by blast
qed

section \<open>Decoding hex digits\<close>

text \<open>
  C8. \<open>ascToNibble\<close> maps the digits \<open>0\<close> to \<open>9\<close> (bytes 48 to 57) to 0 to 9, the
  letters \<open>a\<close> to \<open>f\<close> (97 to 102) and \<open>A\<close> to \<open>F\<close> (65 to 70) to 10 to 15, and
  every other byte to 0. It has no other result, so a malformed digit is not
  reported.
\<close>

theorem ascToNibble_values:
  "(unat v \<in> {48..57} \<longrightarrow> unat (ascToNibble v) = unat v - 48) \<and>
   (unat v \<in> {97..102} \<longrightarrow> unat (ascToNibble v) = unat v - 97 + 10) \<and>
   (unat v \<in> {65..70} \<longrightarrow> unat (ascToNibble v) = unat v - 65 + 10) \<and>
   (unat v \<notin> {48..57} \<union> {97..102} \<union> {65..70} \<longrightarrow> ascToNibble v = 0)"
  by (simp add: ascToNibble_def chr_def word_le_nat_alt unat_sub_if' unat_word_ariths)

theorem ascToNibble_values_witness:
  "unat (ascToNibble 57) = 9 \<and> unat (ascToNibble 97) = 10 \<and>
   unat (ascToNibble 70) = 15 \<and> ascToNibble 103 = 0 \<and> ascToNibble 42 = 0"
  using ascToNibble_values [of 57] ascToNibble_values [of 97]
    ascToNibble_values [of 70] ascToNibble_values [of 103] ascToNibble_values [of 42]
  by simp

end
